theory Spec2Isabelle
  imports Main "HOL-Library.Word"
begin

section \<open>The bad-sector simulator: data\<close>

text \<open>
  The program keeps its state in file-level globals. \<open>size_t\<close> is an unsigned and
  \<open>off_t\<close> a signed 64-bit integer; both are \<open>64 word\<close> here, and a signed reading
  is written \<open>sint\<close> where the C comparison is signed. The parameter \<open>size\<close> of the
  callbacks is written \<open>sz\<close>.
\<close>

type_synonym size_t = "64 word"
type_synonym off_t = "64 word"

definition sector_size :: size_t where
  "sector_size = 512"

text \<open>
  \<open>bad_sectors\<close> holds the array \<open>bad_sectors[0 .. bad_sector_count)\<close>: the count is the
  length of the list. \<open>image_st_size\<close> is what \<open>stat\<close> reports for the image file, and
  \<open>disk_size\<close> the cache that \<open>get_disk_size\<close> fills from it. \<open>malloc_limit\<close> is the
  largest number of bytes that \<open>malloc\<close> grants when \<open>init_callback\<close> builds the list; a
  larger request returns \<open>NULL\<close>.
\<close>

record globals =
  filepath :: string
  bad_sectors :: "off_t list"
  reserve_sectors :: size_t
  disk_size :: size_t
  image_st_size :: off_t
  malloc_limit :: size_t

definition bad_sector_count :: "globals \<Rightarrow> nat" where
  "bad_sector_count g = length (bad_sectors g)"

section \<open>The sector state store\<close>

definition get_disk_size :: "globals \<Rightarrow> size_t \<times> globals" where
  "get_disk_size g =
     (if disk_size g = 0
      then (image_st_size g, g\<lparr>disk_size := image_st_size g\<rparr>)
      else (disk_size g, g))"

text \<open>The linear search \<open>for (i = 0; i < bad_sector_count; i++) if (bad_sectors[i] == sector)\<close>:
  the first index that holds the sector.\<close>

fun find_index :: "off_t \<Rightarrow> off_t list \<Rightarrow> nat option" where
  "find_index sector [] = None"
| "find_index sector (b # bs) =
     (if b = sector then Some 0 else map_option Suc (find_index sector bs))"

text \<open>
  \<open>repair_bad_sector\<close> returns 0 on success and -1 otherwise. On success the new array
  is the old one without entry \<open>i\<close> (the two \<open>memcpy\<close> calls), and one reserve sector is
  used up.
\<close>

definition repair_bad_sector :: "off_t \<Rightarrow> globals \<Rightarrow> int \<times> globals" where
  "repair_bad_sector sector g =
     (if 0 < reserve_sectors g then
        (case find_index sector (bad_sectors g) of
           Some i \<Rightarrow>
             (0, g\<lparr>bad_sectors := take i (bad_sectors g) @ drop (i + 1) (bad_sectors g),
                   reserve_sectors := reserve_sectors g - 1\<rparr>)
         | None \<Rightarrow> (- 1, g))
      else (- 1, g))"

section \<open>The read and write callbacks\<close>

text \<open>
  What a callback hands back to FUSE: 0, -1 with \<open>errno = EIO\<close>, \<open>-ENOENT\<close>, or the
  result of the positioned read or write on the image, recorded with its size and offset.
  The backing file is touched only in the last two cases.
\<close>

datatype reply =
    Ret_zero
  | Ret_eio
  | Ret_enoent
  | Ret_pread size_t off_t
  | Ret_pwrite size_t off_t

text \<open>The truncation \<open>if (offset + size > len) size = len - offset\<close>.\<close>

definition clamp_size :: "size_t \<Rightarrow> size_t \<Rightarrow> off_t \<Rightarrow> size_t" where
  "clamp_size len sz offset = (if len < offset + sz then len - offset else sz)"

definition first_sector :: "off_t \<Rightarrow> off_t" where
  "first_sector offset = offset div sector_size"

definition last_sector :: "size_t \<Rightarrow> off_t \<Rightarrow> off_t" where
  "last_sector sz offset = (offset + sz + sector_size - 1) div sector_size"

text \<open>
  The values \<open>sector\<close> takes in \<open>for (sector = first; sector <= last; sector++)\<close>, a signed
  comparison. Both bounds are quotients by 512, so the increment never overflows.
\<close>

definition sector_loop :: "off_t \<Rightarrow> off_t \<Rightarrow> off_t list" where
  "sector_loop first_s last_s = map word_of_int [sint first_s .. sint last_s]"

definition request_sectors :: "size_t \<Rightarrow> off_t \<Rightarrow> off_t list" where
  "request_sectors sz offset = sector_loop (first_sector offset) (last_sector sz offset)"

text \<open>The nested loop of \<open>read_callback\<close>: true when some sector of the range is listed.\<close>

fun read_scan :: "off_t list \<Rightarrow> off_t list \<Rightarrow> bool" where
  "read_scan [] bad = False"
| "read_scan (sector # rest) bad =
     (if find_index sector bad \<noteq> None then True else read_scan rest bad)"

definition read_callback :: "string \<Rightarrow> size_t \<Rightarrow> off_t \<Rightarrow> globals \<Rightarrow> reply \<times> globals" where
  "read_callback path sz offset g =
     (if path = filepath g then
        (case get_disk_size g of (len, g1) \<Rightarrow>
           if len \<le> offset then (Ret_zero, g1)
           else
             let size1 = clamp_size len sz offset in
             if read_scan (request_sectors size1 offset) (bad_sectors g1)
             then (Ret_eio, g1)
             else (Ret_pread size1 offset, g1))
      else (Ret_enoent, g))"

text \<open>
  The nested loop of \<open>write_callback\<close>. A listed sector is repaired; a successful repair
  leaves the inner loop and goes on with the next sector, a failed one returns at once.
\<close>

datatype scan = Aborted globals | Completed globals

fun write_scan :: "off_t list \<Rightarrow> globals \<Rightarrow> scan" where
  "write_scan [] g = Completed g"
| "write_scan (sector # rest) g =
     (case find_index sector (bad_sectors g) of
        None \<Rightarrow> write_scan rest g
      | Some i \<Rightarrow>
          (case repair_bad_sector sector g of (ret, g1) \<Rightarrow>
             if ret = 0 then write_scan rest g1 else Aborted g1))"

text \<open>The globals a scan ends with, aborted or not.\<close>

fun scan_globals :: "scan \<Rightarrow> globals" where
  "scan_globals (Aborted g) = g"
| "scan_globals (Completed g) = g"

definition write_callback :: "string \<Rightarrow> size_t \<Rightarrow> off_t \<Rightarrow> globals \<Rightarrow> reply \<times> globals" where
  "write_callback path sz offset g =
     (if path = filepath g then
        (case get_disk_size g of (len, g1) \<Rightarrow>
           if len \<le> offset then (Ret_zero, g1)
           else
             let size1 = clamp_size len sz offset in
             (case write_scan (request_sectors size1 offset) g1 of
                Aborted g2 \<Rightarrow> (Ret_eio, g2)
              | Completed g2 \<Rightarrow> (Ret_pwrite size1 offset, g2)))
      else (Ret_enoent, g))"

section \<open>Building the bad-sector list\<close>

text \<open>
  \<open>strtoul\<close> belongs to the C library. For base 10 in the C locale (ISO C 7.22.1.4) it
  skips white space, reads an optional sign and then decimal digits, and returns the value
  with the rest of the string (\<open>endptr\<close>). Without a digit it returns 0 and leaves
  \<open>endptr\<close> at the start of the string; a value beyond \<open>ULONG_MAX\<close> gives \<open>ULONG_MAX\<close>; a
  minus sign negates the value as an unsigned long. The end of the list stands for the
  terminating NUL.
\<close>

definition isspace :: "char \<Rightarrow> bool" where
  "isspace c = (of_char c = (32::nat) \<or> (9 \<le> (of_char c :: nat) \<and> (of_char c :: nat) \<le> 13))"

definition isdigit :: "char \<Rightarrow> bool" where
  "isdigit c = (48 \<le> (of_char c :: nat) \<and> (of_char c :: nat) \<le> 57)"

definition digit_value :: "char \<Rightarrow> nat" where
  "digit_value c = of_char c - 48"

definition decimal_value :: "string \<Rightarrow> nat" where
  "decimal_value ds = foldl (\<lambda>acc c. 10 * acc + digit_value c) 0 ds"

definition strtoul :: "string \<Rightarrow> size_t \<times> string" where
  "strtoul nptr =
     (let s1 = dropWhile isspace nptr;
          signed = (case s1 of [] \<Rightarrow> False | c # cs \<Rightarrow> c = CHR ''-'' \<or> c = CHR ''+'');
          negative = (case s1 of [] \<Rightarrow> False | c # cs \<Rightarrow> c = CHR ''-'');
          s2 = (if signed then tl s1 else s1);
          ds = takeWhile isdigit s2;
          n = decimal_value ds
      in if ds = [] then (0, nptr)
         else ((if 2 ^ 64 \<le> n then - 1 else if negative then - of_nat n else of_nat n),
               dropWhile isdigit s2))"

text \<open>
  \<open>get_sector_count\<close>, with \<open>sector_end\<close> and \<open>real_end\<close> as the strings that start at
  those pointers. The count is computed in 64-bit arithmetic, as the C does.
\<close>

function get_sector_count :: "string \<Rightarrow> size_t" where
  "get_sector_count sector_list =
     (case strtoul sector_list of (first_s, sector_end) \<Rightarrow>
        (case sector_end of
           [] \<Rightarrow> 1
         | c # rest1 \<Rightarrow>
             if c = CHR '','' then 1 + get_sector_count rest1
             else if c = CHR ''-'' then
               (case strtoul rest1 of (last_s, real_end) \<Rightarrow>
                  (case real_end of
                     [] \<Rightarrow> last_s - first_s + 1
                   | d # rest2 \<Rightarrow>
                       if d = CHR '','' then last_s - first_s + 1 + get_sector_count rest2
                       else last_s - first_s + 1))
             else 1))"
  by pat_completeness auto
termination
proof (relation "measure length")
  have le: "length (snd (strtoul s)) \<le> length s" for s
  proof -
    define s1 where "s1 = dropWhile isspace s"
    define s2 where "s2 = (if (case s1 of [] \<Rightarrow> False | c # cs \<Rightarrow> c = CHR ''-'' \<or> c = CHR ''+'')
      then tl s1 else s1)"
    have "length s1 \<le> length s"
      by (simp add: s1_def length_dropWhile_le)
    moreover have "length s2 \<le> length s1"
      by (simp add: s2_def)
    moreover have "length (dropWhile isdigit s2) \<le> length s2"
      by (rule length_dropWhile_le)
    ultimately have "length (dropWhile isdigit s2) \<le> length s"
      by linarith
    then show ?thesis
      by (simp add: strtoul_def Let_def s1_def [symmetric] s2_def [symmetric])
  qed
  show "wf (measure length)" by simp
  show "(rest1, sector_list) \<in> measure length"
    if "(first_s, sector_end) = strtoul sector_list" and "sector_end = c # rest1"
    for sector_list first_s sector_end c rest1
    using that le [of sector_list] by (cases "strtoul sector_list") auto
  show "(rest2, sector_list) \<in> measure length"
    if "(first_s, sector_end) = strtoul sector_list" and "sector_end = c # rest1"
      and "(last_s, real_end) = strtoul rest1" and "real_end = d # rest2"
    for sector_list first_s sector_end c rest1 last_s real_end d rest2
    using that le [of sector_list] le [of rest1]
    by (cases "strtoul sector_list"; cases "strtoul rest1") auto
qed

text \<open>
  The loop \<open>for (off_t i = first_sector + 1; i <= last_sector; i++)\<close> of
  \<open>add_bad_sectors\<close>, with the stores it makes: cell \<open>i - first_sector\<close> from where
  \<open>sector_array\<close> points (\<open>base\<close>) receives \<open>i\<close>. The counter is a signed 64-bit integer.
  When \<open>first_sector\<close> is the largest \<open>off_t\<close> the initial \<open>first_sector + 1\<close> overflows;
  when \<open>last_sector\<close> is, the test \<open>i <= last_sector\<close> never fails and \<open>i++\<close> overflows; and
  \<open>i - first_sector\<close> overflows when the two are more than that apart. Signed overflow is
  undefined behaviour: the loop then has no result (\<open>None\<close>).
\<close>

definition range_loop :: "int \<Rightarrow> off_t \<Rightarrow> off_t \<Rightarrow> (int \<times> off_t) list option" where
  "range_loop base first_s last_s =
     (if sint first_s = 2 ^ 63 - 1 \<or> sint last_s = 2 ^ 63 - 1 \<or>
         2 ^ 63 - 1 < sint last_s - sint first_s
      then None
      else Some (map (\<lambda>i. (base + (i - sint first_s), word_of_int i))
                   [sint first_s + 1 .. sint last_s]))"

text \<open>
  \<open>add_bad_sectors\<close> stores into \<open>sector_array\<close>, a pointer into the block that
  \<open>build_bad_sector_list\<close> allocated. Its stores are listed in program order, each as
  the index in that block (\<open>base\<close> is where \<open>sector_array\<close> points) and the value.
\<close>

function add_bad_sectors :: "string \<Rightarrow> int \<Rightarrow> (int \<times> off_t) list option" where
  "add_bad_sectors sector_list base =
     (case strtoul sector_list of (first_s, sector_end) \<Rightarrow>
        (case sector_end of
           [] \<Rightarrow> Some [(base, first_s)]
         | c # rest1 \<Rightarrow>
             if c = CHR '','' then
               map_option ((#) (base, first_s)) (add_bad_sectors rest1 (base + 1))
             else if c = CHR ''-'' then
               (case strtoul rest1 of (last_s, real_end) \<Rightarrow>
                  (case range_loop base first_s last_s of
                     None \<Rightarrow> None
                   | Some stores \<Rightarrow>
                       (case real_end of
                          [] \<Rightarrow> Some ((base, first_s) # stores)
                        | d # rest2 \<Rightarrow>
                            if d = CHR '',''
                            then map_option ((@) ((base, first_s) # stores))
                              (add_bad_sectors rest2 (base + sint last_s - sint first_s + 1))
                            else Some ((base, first_s) # stores))))
             else Some [(base, first_s)]))"
  by pat_completeness auto
termination
proof (relation "measure (\<lambda>(s, b). length s)")
  have le: "length (snd (strtoul s)) \<le> length s" for s
  proof -
    define s1 where "s1 = dropWhile isspace s"
    define s2 where "s2 = (if (case s1 of [] \<Rightarrow> False | c # cs \<Rightarrow> c = CHR ''-'' \<or> c = CHR ''+'')
      then tl s1 else s1)"
    have "length s1 \<le> length s"
      by (simp add: s1_def length_dropWhile_le)
    moreover have "length s2 \<le> length s1"
      by (simp add: s2_def)
    moreover have "length (dropWhile isdigit s2) \<le> length s2"
      by (rule length_dropWhile_le)
    ultimately have "length (dropWhile isdigit s2) \<le> length s"
      by linarith
    then show ?thesis
      by (simp add: strtoul_def Let_def s1_def [symmetric] s2_def [symmetric])
  qed
  show "wf (measure (\<lambda>(s, b). length s))" by simp
  show "((rest1, base + 1), (sector_list, base)) \<in> measure (\<lambda>(s, b). length s)"
    if "(first_s, sector_end) = strtoul sector_list" and "sector_end = c # rest1"
    for sector_list base first_s sector_end c rest1
    using that le [of sector_list] by (cases "strtoul sector_list") auto
  show "((rest2, base + sint last_s - sint first_s + 1), (sector_list, base))
      \<in> measure (\<lambda>(s, b). length s)"
    if "(first_s, sector_end) = strtoul sector_list" and "sector_end = c # rest1"
      and "(last_s, real_end) = strtoul rest1" and "real_end = d # rest2"
    for sector_list base first_s sector_end c rest1 last_s real_end d rest2
    using that le [of sector_list] le [of rest1]
    by (cases "strtoul sector_list"; cases "strtoul rest1") auto
qed

declare get_sector_count.simps [simp del] add_bad_sectors.simps [simp del]

text \<open>
  A store through \<open>NULL\<close> or outside the allocated block, a loop counter that overflows,
  and a list whose cells were not all stored to are undefined behaviour in C; the model
  reports them.
\<close>

datatype undefined_behaviour =
    Allocation_refused
  | Counter_overflow
  | Store_outside_block
  | Cell_never_stored

text \<open>
  \<open>malloc(bad_sector_count * sizeof(off_t))\<close>: the product is taken in \<open>size_t\<close>. A
  request above \<open>malloc_limit\<close> is refused and returns \<open>NULL\<close> (\<open>None\<close>). Otherwise the
  block has room for that many bytes, and a cell is \<open>None\<close> until it is stored to.
\<close>

definition malloc_cells :: "globals \<Rightarrow> size_t \<Rightarrow> off_t option list option" where
  "malloc_cells g n =
     (if malloc_limit g < n * 8 then None
      else Some (replicate (unat (n * 8) div 8) None))"

fun store_all :: "(int \<times> off_t) list \<Rightarrow> off_t option list \<Rightarrow> off_t option list option" where
  "store_all [] cells = Some cells"
| "store_all ((k, v) # ws) cells =
     (if 0 \<le> k \<and> k < int (length cells) then store_all ws (cells[nat k := Some v]) else None)"

text \<open>
  \<open>build_bad_sector_list\<close> does not test what \<open>malloc\<close> returned: when the request was
  refused, the first store of \<open>add_bad_sectors\<close> goes through the null pointer.
\<close>

definition build_bad_sector_list ::
  "string option \<Rightarrow> globals \<Rightarrow> undefined_behaviour + globals" where
  "build_bad_sector_list sector_list g =
     (case sector_list of
        None \<Rightarrow> Inr g
      | Some s \<Rightarrow>
          let n = get_sector_count s in
          (case malloc_cells g n of
             None \<Rightarrow> Inl Allocation_refused
           | Some block \<Rightarrow>
               (case add_bad_sectors s 0 of
                  None \<Rightarrow> Inl Counter_overflow
                | Some stores \<Rightarrow>
                    (case store_all stores block of
                       None \<Rightarrow> Inl Store_outside_block
                     | Some cells \<Rightarrow>
                         if unat n \<le> length cells \<and>
                            list_all (\<lambda>c. c \<noteq> None) (take (unat n) cells)
                         then Inr (g\<lparr>bad_sectors := map the (take (unat n) cells)\<rparr>)
                         else Inl Cell_never_stored))))"

section \<open>Sequences of operations\<close>

datatype operation =
    Read string size_t off_t
  | Write string size_t off_t
  | Repair off_t

fun perform :: "operation \<Rightarrow> globals \<Rightarrow> globals" where
  "perform (Read path sz offset) g = snd (read_callback path sz offset g)"
| "perform (Write path sz offset) g = snd (write_callback path sz offset g)"
| "perform (Repair sector) g = snd (repair_bad_sector sector g)"

fun run :: "operation list \<Rightarrow> globals \<Rightarrow> globals" where
  "run [] g = g"
| "run (x # xs) g = run xs (perform x g)"

text \<open>
  The number of calls of \<open>repair_bad_sector\<close> that return 0: in one scan of
  \<open>write_callback\<close>, in one operation, and in a sequence of operations.
\<close>

fun scan_repairs :: "off_t list \<Rightarrow> globals \<Rightarrow> nat" where
  "scan_repairs [] g = 0"
| "scan_repairs (sector # rest) g =
     (case find_index sector (bad_sectors g) of
        None \<Rightarrow> scan_repairs rest g
      | Some i \<Rightarrow>
          (case repair_bad_sector sector g of (ret, g1) \<Rightarrow>
             if ret = 0 then Suc (scan_repairs rest g1) else 0))"

fun repairs_of :: "operation \<Rightarrow> globals \<Rightarrow> nat" where
  "repairs_of (Read path sz offset) g = 0"
| "repairs_of (Write path sz offset) g =
     (if path = filepath g then
        (case get_disk_size g of (len, g1) \<Rightarrow>
           if len \<le> offset then 0
           else scan_repairs (request_sectors (clamp_size len sz offset) offset) g1)
      else 0)"
| "repairs_of (Repair sector) g = (if fst (repair_bad_sector sector g) = 0 then 1 else 0)"

fun repairs_in :: "operation list \<Rightarrow> globals \<Rightarrow> nat" where
  "repairs_in [] g = 0"
| "repairs_in (x # xs) g = repairs_of x g + repairs_in xs (perform x g)"

section \<open>Well-formed sector lists\<close>

text \<open>
  The grammar of the specification: a list is one or more terms separated by commas, a
  term is a number \<open>N\<close> or a range \<open>N-M\<close>, and a number is written in decimal. \<open>spec_text\<close>
  writes such a list out as the string handed to \<open>-s\<close>; \<open>spec_sectors\<close> lists the sectors
  it denotes, term by term, each range expanded.
\<close>

datatype item = Single nat | Range nat nat

fun digits :: "nat \<Rightarrow> string" where
  "digits n =
     (if n < 10 then [char_of (48 + n)] else digits (n div 10) @ [char_of (48 + n mod 10)])"

declare digits.simps [simp del]

fun item_text :: "item \<Rightarrow> string" where
  "item_text (Single n) = digits n"
| "item_text (Range n m) = digits n @ ''-'' @ digits m"

fun spec_text :: "item list \<Rightarrow> string" where
  "spec_text [] = []"
| "spec_text [t] = item_text t"
| "spec_text (t # u # ts) = item_text t @ '','' @ spec_text (u # ts)"

fun item_sectors :: "item \<Rightarrow> nat list" where
  "item_sectors (Single n) = [n]"
| "item_sectors (Range n m) = [n ..< Suc m]"

definition spec_sectors :: "item list \<Rightarrow> nat list" where
  "spec_sectors ts = concat (map item_sectors ts)"

text \<open>A term is in order when its numbers are non-negative \<open>off_t\<close> values and a range
  does not run backwards.\<close>

fun item_ok :: "item \<Rightarrow> bool" where
  "item_ok (Single n) = (n < 2 ^ 63)"
| "item_ok (Range n m) = (n \<le> m \<and> m < 2 ^ 63)"

text \<open>The loop of \<open>add_bad_sectors\<close> over a range ends only when the range ends below the
  largest \<open>off_t\<close>: at that value its counter overflows.\<close>

fun loop_ends :: "item \<Rightarrow> bool" where
  "loop_ends (Single n) = True"
| "loop_ends (Range n m) = (m < 2 ^ 63 - 1)"

text \<open>Stores to consecutive cells, starting at cell \<open>base\<close>.\<close>

fun consecutive :: "int \<Rightarrow> off_t list \<Rightarrow> (int \<times> off_t) list" where
  "consecutive base [] = []"
| "consecutive base (v # vs) = (base, v) # consecutive (base + 1) vs"

section \<open>Ceiling division\<close>

text \<open>
  The quotient rounded up, as the specification writes the last sector of a request; the
  code computes it as \<open>(a + b - 1) / b\<close> in \<open>last_sector\<close>.
\<close>

definition ceilDiv :: "nat \<Rightarrow> nat \<Rightarrow> nat" where
  "ceilDiv a b = (if b dvd a then a div b else Suc (a div b))"

section \<open>Example configurations\<close>

text \<open>An 8192-byte image with the bad sectors of \<open>-s 10,11\<close> and one reserve sector;
  \<open>malloc\<close> grants up to a megabyte.\<close>

definition two_bad :: globals where
  "two_bad = \<lparr>filepath = ''/disk.img'', bad_sectors = [10, 11], reserve_sectors = 1,
     disk_size = 0, image_st_size = 8192, malloc_limit = 1048576\<rparr>"

text \<open>The same image after \<open>-s 7,7 -r 2\<close>.\<close>

definition listed_twice :: globals where
  "listed_twice = \<lparr>filepath = ''/disk.img'', bad_sectors = [7, 7], reserve_sectors = 2,
     disk_size = 0, image_st_size = 8192, malloc_limit = 1048576\<rparr>"

text \<open>The image before \<open>init_callback\<close> has built the list.\<close>

definition fresh :: globals where
  "fresh = \<lparr>filepath = ''/disk.img'', bad_sectors = [], reserve_sectors = 0,
     disk_size = 0, image_st_size = 8192, malloc_limit = 1048576\<rparr>"

section \<open>The repair of one sector\<close>

lemma find_index_None_iff: "find_index s xs = None \<longleftrightarrow> s \<notin> set xs"
  by (induction xs) auto

lemma find_index_remove1:
  "find_index s xs = Some i \<Longrightarrow> take i xs @ drop (Suc i) xs = remove1 s xs"
  by (induction xs arbitrary: i) (auto split: if_splits)

lemma find_index_Some_ex: "s \<in> set xs \<Longrightarrow> \<exists>i. find_index s xs = Some i"
  by (cases "find_index s xs") (simp_all add: find_index_None_iff)

lemma repair_listed:
  assumes "s \<in> set (bad_sectors g)" and "0 < reserve_sectors g"
  shows "repair_bad_sector s g =
    (0, g\<lparr>bad_sectors := remove1 s (bad_sectors g), reserve_sectors := reserve_sectors g - 1\<rparr>)"
proof -
  obtain i where "find_index s (bad_sectors g) = Some i"
    using assms(1) find_index_Some_ex by blast
  then show ?thesis
    using assms(2) by (simp add: repair_bad_sector_def find_index_remove1)
qed

lemma repair_refused:
  assumes "s \<notin> set (bad_sectors g) \<or> reserve_sectors g = 0"
  shows "repair_bad_sector s g = (- 1, g)"
  using assms by (auto simp: repair_bad_sector_def find_index_None_iff [symmetric] split: option.splits)

lemma repair_cases:
  "repair_bad_sector s g =
     (if s \<in> set (bad_sectors g) \<and> 0 < reserve_sectors g
      then (0, g\<lparr>bad_sectors := remove1 s (bad_sectors g), reserve_sectors := reserve_sectors g - 1\<rparr>)
      else (- 1, g))"
  by (auto simp: repair_listed repair_refused word_gt_0)

lemma unat_pred: "0 < (w :: 64 word) \<Longrightarrow> Suc (unat (w - 1)) = unat w"
  by (metis Suc_pred' unat_gt_0 unat_minus_one word_gt_0)

lemma length_remove1_Suc: "s \<in> set xs \<Longrightarrow> Suc (length (remove1 s xs)) = length xs"
  by (induction xs) auto

lemma set_remove1_once: "count_list xs s = 1 \<Longrightarrow> set (remove1 s xs) = set xs - {s}"
proof (induction xs)
  case Nil
  then show ?case by simp
next
  case (Cons x xs)
  show ?case
  proof (cases "x = s")
    case True
    with Cons.prems have "count_list xs s = 0" by simp
    then have "s \<notin> set xs" by (simp add: count_list_0_iff)
    with True show ?thesis by auto
  next
    case False
    with Cons show ?thesis by auto
  qed
qed

text \<open>
  Claim C2, as the code has it. \<open>repair_bad_sector\<close> returns 0 exactly when the sector is
  listed and a reserve sector is left. It then drops one entry of the list, the first one
  that holds the sector, and uses up one reserve sector: the list is one entry shorter,
  the reserve count one less, and a sector that was listed once is no longer listed.
  Otherwise it returns -1 and changes nothing.
\<close>

theorem repair_bad_sector_removes_one_entry:
  "(fst (repair_bad_sector sector g) = 0 \<longleftrightarrow>
      sector \<in> set (bad_sectors g) \<and> 0 < reserve_sectors g) \<and>
   (fst (repair_bad_sector sector g) = 0 \<longrightarrow>
      snd (repair_bad_sector sector g) =
        g\<lparr>bad_sectors := remove1 sector (bad_sectors g),
          reserve_sectors := reserve_sectors g - 1\<rparr> \<and>
      Suc (length (bad_sectors (snd (repair_bad_sector sector g)))) = length (bad_sectors g) \<and>
      Suc (unat (reserve_sectors (snd (repair_bad_sector sector g)))) = unat (reserve_sectors g) \<and>
      (count_list (bad_sectors g) sector = 1 \<longrightarrow>
         set (bad_sectors (snd (repair_bad_sector sector g))) = set (bad_sectors g) - {sector})) \<and>
   (fst (repair_bad_sector sector g) \<noteq> 0 \<longrightarrow> repair_bad_sector sector g = (- 1, g))"
  by (simp add: repair_cases unat_pred length_remove1_Suc set_remove1_once)

text \<open>
  With sectors 10 and 11 listed and one reserve sector, repairing 10 succeeds and leaves
  11 listed; with no reserve sector left the repair of 11 is refused.
\<close>

theorem repair_bad_sector_removes_one_entry_witness:
  "fst (repair_bad_sector 10 two_bad) = 0 \<and>
   bad_sectors (snd (repair_bad_sector 10 two_bad)) = [11] \<and>
   reserve_sectors (snd (repair_bad_sector 10 two_bad)) = 0 \<and>
   set (bad_sectors (snd (repair_bad_sector 10 two_bad))) = set (bad_sectors two_bad) - {10} \<and>
   repair_bad_sector 11 (two_bad\<lparr>reserve_sectors := 0\<rparr>) = (- 1, two_bad\<lparr>reserve_sectors := 0\<rparr>)"
proof -
  have listed: "10 \<in> set (bad_sectors two_bad) \<and> 0 < reserve_sectors two_bad"
    by (simp add: two_bad_def)
  have once: "count_list (bad_sectors two_bad) 10 = 1"
    by (simp add: two_bad_def)
  note first = repair_bad_sector_removes_one_entry [of 10 two_bad]
  from first listed have ok: "fst (repair_bad_sector 10 two_bad) = 0"
    by blast
  with first have st: "snd (repair_bad_sector 10 two_bad) =
      two_bad\<lparr>bad_sectors := remove1 10 (bad_sectors two_bad),
        reserve_sectors := reserve_sectors two_bad - 1\<rparr>"
    by blast
  from first ok once have s: "set (bad_sectors (snd (repair_bad_sector 10 two_bad))) =
      set (bad_sectors two_bad) - {10}"
    by blast
  have "\<not> (11 \<in> set (bad_sectors (two_bad\<lparr>reserve_sectors := 0\<rparr>)) \<and>
      0 < reserve_sectors (two_bad\<lparr>reserve_sectors := 0\<rparr>))"
    by simp
  with repair_bad_sector_removes_one_entry [of 11 "two_bad\<lparr>reserve_sectors := 0\<rparr>"]
  have refused: "repair_bad_sector 11 (two_bad\<lparr>reserve_sectors := 0\<rparr>) =
      (- 1, two_bad\<lparr>reserve_sectors := 0\<rparr>)"
    by blast
  have "bad_sectors (snd (repair_bad_sector 10 two_bad)) = [11]"
    and "reserve_sectors (snd (repair_bad_sector 10 two_bad)) = 0"
    by (simp_all add: st) (simp_all add: two_bad_def)
  with ok s refused show ?thesis
    by blast
qed

text \<open>
  Claim C2 as the specification states it fails when a sector is listed twice: the repair
  of sector 7 succeeds and sector 7 is still in the set of bad sectors.
\<close>

theorem repair_leaves_second_entry:
  "fst (repair_bad_sector 7 listed_twice) = 0 \<and>
   7 \<in> set (bad_sectors (snd (repair_bad_sector 7 listed_twice))) \<and>
   set (bad_sectors (snd (repair_bad_sector 7 listed_twice))) \<noteq> set (bad_sectors listed_twice) - {7}"
  by (simp add: repair_bad_sector_def listed_twice_def)


section \<open>The scans of the callbacks\<close>

lemma read_scan_iff: "read_scan ss bad \<longleftrightarrow> (\<exists>s \<in> set ss. s \<in> set bad)"
  by (induction ss) (auto simp: find_index_None_iff)

lemma write_scan_Cons:
  "write_scan (s # rest) g =
     (if s \<in> set (bad_sectors g) then
        (if 0 < reserve_sectors g
         then write_scan rest
           (g\<lparr>bad_sectors := remove1 s (bad_sectors g), reserve_sectors := reserve_sectors g - 1\<rparr>)
         else Aborted g)
      else write_scan rest g)"
proof (cases "s \<in> set (bad_sectors g)")
  case True
  then obtain i where "find_index s (bad_sectors g) = Some i"
    using find_index_Some_ex by blast
  with True show ?thesis
    by (simp add: repair_cases)
next
  case False
  then have "find_index s (bad_sectors g) = None"
    by (simp add: find_index_None_iff)
  with False show ?thesis
    by simp
qed

lemma write_scan_append:
  "write_scan (xs @ ys) g =
     (case write_scan xs g of Aborted g1 \<Rightarrow> Aborted g1 | Completed g1 \<Rightarrow> write_scan ys g1)"
  by (induction xs arbitrary: g) (simp_all add: write_scan_Cons del: write_scan.simps(2))

lemma count_list_remove1:
  "count_list (remove1 s xs) x = (if x = s then count_list xs x - 1 else count_list xs x)"
  by (induction xs) auto

lemma write_scan_count_le:
  "count_list (bad_sectors (scan_globals (write_scan ss g))) x \<le> count_list (bad_sectors g) x"
proof (induction ss arbitrary: g)
  case Nil
  then show ?case by simp
next
  case (Cons s ss)
  let ?g1 = "g\<lparr>bad_sectors := remove1 s (bad_sectors g), reserve_sectors := reserve_sectors g - 1\<rparr>"
  have "count_list (bad_sectors ?g1) x \<le> count_list (bad_sectors g) x"
    by (simp add: count_list_remove1)
  with Cons.IH [of ?g1] Cons.IH [of g] show ?case
    by (auto simp: write_scan_Cons simp del: write_scan.simps(2) intro: order_trans)
qed

lemma write_scan_repaired_gone:
  assumes "write_scan ss g = Completed g1" and "x \<in> set ss" and "count_list (bad_sectors g) x \<le> 1"
  shows "x \<notin> set (bad_sectors g1)"
  using assms
proof (induction ss arbitrary: g)
  case Nil
  then show ?case by simp
next
  case (Cons s ss)
  let ?g1 = "g\<lparr>bad_sectors := remove1 s (bad_sectors g), reserve_sectors := reserve_sectors g - 1\<rparr>"
  have mono: "count_list (bad_sectors ?g1) x \<le> 1"
    using Cons.prems(3) by (simp add: count_list_remove1)
  show ?case
  proof (cases "x = s")
    case True
    show ?thesis
    proof (cases "s \<in> set (bad_sectors g)")
      case listed: True
      with Cons.prems(1) have run: "write_scan ss ?g1 = Completed g1"
        by (simp add: write_scan_Cons del: write_scan.simps(2) split: if_splits)
      have "count_list (bad_sectors ?g1) x = 0"
        using Cons.prems(3) True by (simp add: count_list_remove1)
      moreover have "count_list (bad_sectors g1) x \<le> count_list (bad_sectors ?g1) x"
        using write_scan_count_le [of ss ?g1 x] run by simp
      ultimately show ?thesis
        by (simp add: count_list_0_iff)
    next
      case False
      with Cons.prems(1) have run: "write_scan ss g = Completed g1"
        by (simp add: write_scan_Cons del: write_scan.simps(2))
      have "count_list (bad_sectors g1) x \<le> count_list (bad_sectors g) x"
        using write_scan_count_le [of ss g x] run by simp
      moreover have "count_list (bad_sectors g) x = 0"
        using False True by (simp add: count_list_0_iff)
      ultimately show ?thesis
        by (simp add: count_list_0_iff)
    qed
  next
    case False
    with Cons.prems(2) have mem: "x \<in> set ss" by simp
    show ?thesis
    proof (cases "s \<in> set (bad_sectors g)")
      case True
      with Cons.prems(1) have "write_scan ss ?g1 = Completed g1"
        by (simp add: write_scan_Cons del: write_scan.simps(2) split: if_splits)
      from Cons.IH [OF this mem mono] show ?thesis .
    next
      case False
      with Cons.prems(1) have "write_scan ss g = Completed g1"
        by (simp add: write_scan_Cons del: write_scan.simps(2))
      from Cons.IH [OF this mem Cons.prems(3)] show ?thesis .
    qed
  qed
qed

text \<open>
  Claim C1. A write to the image whose scan has passed the sectors \<open>ss1\<close> and reaches a
  listed sector that \<open>repair_bad_sector\<close> refuses returns -1 with \<open>EIO\<close> at once: no
  \<open>pwrite\<close> is issued, and the globals are those the scan of \<open>ss1\<close> left, so the repairs made
  on the way stay; a sector of \<open>ss1\<close> that was listed at most once is no longer listed.
\<close>

theorem write_aborts_at_failed_repair:
  assumes "path = filepath g"
    and "get_disk_size g = (len, g1)"
    and "\<not> len \<le> offset"
    and "request_sectors (clamp_size len sz offset) offset = ss1 @ sector # ss2"
    and "write_scan ss1 g1 = Completed g2"
    and "sector \<in> set (bad_sectors g2)"
    and "fst (repair_bad_sector sector g2) \<noteq> 0"
  shows "write_callback path sz offset g = (Ret_eio, g2) \<and>
         (\<forall>x \<in> set ss1. count_list (bad_sectors g1) x \<le> 1 \<longrightarrow> x \<notin> set (bad_sectors g2))"
proof -
  from assms(6,7) have "reserve_sectors g2 = 0"
    by (simp add: repair_cases word_gt_0 split: if_splits)
  with assms(6) have "write_scan (sector # ss2) g2 = Aborted g2"
    by (simp add: write_scan_Cons del: write_scan.simps(2))
  with assms(5) have "write_scan (ss1 @ sector # ss2) g1 = Aborted g2"
    by (simp add: write_scan_append)
  with assms(1-4) have "write_callback path sz offset g = (Ret_eio, g2)"
    by (simp add: write_callback_def)
  moreover have "\<forall>x \<in> set ss1. count_list (bad_sectors g1) x \<le> 1 \<longrightarrow> x \<notin> set (bad_sectors g2)"
    using write_scan_repaired_gone [OF assms(5)] by blast
  ultimately show ?thesis by blast
qed

text \<open>
  One reserve sector, sectors 10 and 11 listed: the write of bytes 5120 to 6143 repairs
  sector 10 and fails at sector 11, leaving 11 listed and no reserve sector.
\<close>

theorem write_aborts_at_failed_repair_witness:
  "write_callback ''/disk.img'' 1024 5120 two_bad =
     (Ret_eio, two_bad\<lparr>bad_sectors := [11], reserve_sectors := 0, disk_size := 8192\<rparr>) \<and>
   10 \<notin> set (bad_sectors (snd (write_callback ''/disk.img'' 1024 5120 two_bad)))"
proof -
  let ?g1 = "two_bad\<lparr>disk_size := 8192\<rparr>"
  let ?g2 = "two_bad\<lparr>bad_sectors := [11], reserve_sectors := 0, disk_size := 8192\<rparr>"
  have a: "''/disk.img'' = filepath two_bad"
    by (simp add: two_bad_def)
  have b: "get_disk_size two_bad = (8192, ?g1)"
    by (simp add: two_bad_def get_disk_size_def)
  have c: "\<not> (8192 :: 64 word) \<le> 5120"
    by simp
  have d: "request_sectors (clamp_size 8192 1024 5120) 5120 = [10] @ 11 # [12]"
    by code_simp
  have e: "write_scan [10] ?g1 = Completed ?g2"
    by (simp add: two_bad_def repair_bad_sector_def)
  have f: "11 \<in> set (bad_sectors ?g2)"
    by simp
  have h: "fst (repair_bad_sector 11 ?g2) \<noteq> 0"
    by (simp add: repair_bad_sector_def)
  from write_aborts_at_failed_repair [OF a b c d e f h]
  show ?thesis
    by (simp add: two_bad_def)
qed

text \<open>
  Claim C3. A read of the image below its end whose sector range holds a listed sector
  returns -1 with \<open>EIO\<close>; no \<open>pread\<close> is issued, and the list and the reserve count are as
  before (only the cached size may have been filled in).
\<close>

theorem read_of_bad_sector_faults:
  assumes "path = filepath g"
    and "get_disk_size g = (len, g1)"
    and "\<not> len \<le> offset"
    and "sector \<in> set (request_sectors (clamp_size len sz offset) offset)"
    and "sector \<in> set (bad_sectors g)"
  shows "read_callback path sz offset g = (Ret_eio, g1) \<and>
         bad_sectors g1 = bad_sectors g \<and> reserve_sectors g1 = reserve_sectors g"
proof -
  from assms(2) have same: "bad_sectors g1 = bad_sectors g" "reserve_sectors g1 = reserve_sectors g"
    by (auto simp: get_disk_size_def split: if_splits)
  with assms(4,5) have "read_scan (request_sectors (clamp_size len sz offset) offset) (bad_sectors g1)"
    by (auto simp: read_scan_iff)
  with assms(1-3) same show ?thesis
    by (simp add: read_callback_def)
qed

text \<open>
  Reading 512 bytes at offset 5632 touches sector 11, which is listed.
\<close>

theorem read_of_bad_sector_faults_witness:
  "read_callback ''/disk.img'' 512 5632 two_bad = (Ret_eio, two_bad\<lparr>disk_size := 8192\<rparr>)"
proof -
  have a: "''/disk.img'' = filepath two_bad"
    by (simp add: two_bad_def)
  have b: "get_disk_size two_bad = (8192, two_bad\<lparr>disk_size := 8192\<rparr>)"
    by (simp add: two_bad_def get_disk_size_def)
  have c: "\<not> (8192 :: 64 word) \<le> 5632"
    by simp
  have "request_sectors (clamp_size 8192 512 5632) 5632 = [11, 12]"
    by code_simp
  then have d: "11 \<in> set (request_sectors (clamp_size 8192 512 5632) 5632)"
    by simp
  have e: "11 \<in> set (bad_sectors two_bad)"
    by (simp add: two_bad_def)
  from read_of_bad_sector_faults [OF a b c d e] show ?thesis
    by simp
qed


section \<open>Counting repairs\<close>

lemma scan_repairs_Cons:
  "scan_repairs (s # rest) g =
     (if s \<in> set (bad_sectors g) then
        (if 0 < reserve_sectors g
         then Suc (scan_repairs rest
           (g\<lparr>bad_sectors := remove1 s (bad_sectors g), reserve_sectors := reserve_sectors g - 1\<rparr>))
         else 0)
      else scan_repairs rest g)"
proof (cases "s \<in> set (bad_sectors g)")
  case True
  then obtain i where "find_index s (bad_sectors g) = Some i"
    using find_index_Some_ex by blast
  with True show ?thesis
    by (simp add: repair_cases)
next
  case False
  then have "find_index s (bad_sectors g) = None"
    by (simp add: find_index_None_iff)
  with False show ?thesis
    by simp
qed

lemma write_scan_accounting:
  "length (bad_sectors (scan_globals (write_scan ss g))) + scan_repairs ss g = length (bad_sectors g) \<and>
   unat (reserve_sectors (scan_globals (write_scan ss g))) + scan_repairs ss g = unat (reserve_sectors g) \<and>
   set (bad_sectors (scan_globals (write_scan ss g))) \<subseteq> set (bad_sectors g) \<and>
   (distinct (bad_sectors g) \<longrightarrow> distinct (bad_sectors (scan_globals (write_scan ss g))))"
proof (induction ss arbitrary: g)
  case Nil
  then show ?case by simp
next
  case (Cons s ss)
  let ?g1 = "g\<lparr>bad_sectors := remove1 s (bad_sectors g), reserve_sectors := reserve_sectors g - 1\<rparr>"
  show ?case
  proof (cases "s \<in> set (bad_sectors g) \<and> 0 < reserve_sectors g")
    case True
    then have step: "write_scan (s # ss) g = write_scan ss ?g1"
      "scan_repairs (s # ss) g = Suc (scan_repairs ss ?g1)"
      by (simp_all add: write_scan_Cons scan_repairs_Cons del: write_scan.simps(2) scan_repairs.simps(2))
    have one: "Suc (length (bad_sectors ?g1)) = length (bad_sectors g)"
      "Suc (unat (reserve_sectors ?g1)) = unat (reserve_sectors g)"
      "set (bad_sectors ?g1) \<subseteq> set (bad_sectors g)"
      "distinct (bad_sectors g) \<longrightarrow> distinct (bad_sectors ?g1)"
      using True by (simp_all add: length_remove1_Suc unat_pred set_remove1_subset)
    from Cons.IH [of ?g1] one show ?thesis
      unfolding step by auto
  next
    case False
    then consider "s \<notin> set (bad_sectors g)" | "s \<in> set (bad_sectors g)" "reserve_sectors g = 0"
      by (auto simp: word_gt_0)
    then show ?thesis
    proof cases
      case 1
      with Cons.IH [of g] show ?thesis
        by (simp add: write_scan_Cons scan_repairs_Cons del: write_scan.simps(2) scan_repairs.simps(2))
    next
      case 2
      then show ?thesis
        by (simp add: write_scan_Cons scan_repairs_Cons del: write_scan.simps(2) scan_repairs.simps(2))
    qed
  qed
qed

lemma get_disk_size_frame:
  "bad_sectors (snd (get_disk_size g)) = bad_sectors g \<and>
   reserve_sectors (snd (get_disk_size g)) = reserve_sectors g \<and>
   filepath (snd (get_disk_size g)) = filepath g"
  by (simp add: get_disk_size_def)

lemma read_callback_frame:
  "bad_sectors (snd (read_callback path sz offset g)) = bad_sectors g \<and>
   reserve_sectors (snd (read_callback path sz offset g)) = reserve_sectors g"
  using get_disk_size_frame [of g]
  by (cases "get_disk_size g") (simp add: read_callback_def Let_def)

lemma write_callback_globals:
  "snd (write_callback path sz offset g) =
     (if path = filepath g then
        (if fst (get_disk_size g) \<le> offset then snd (get_disk_size g)
         else scan_globals (write_scan
           (request_sectors (clamp_size (fst (get_disk_size g)) sz offset) offset) (snd (get_disk_size g))))
      else g)"
  by (cases "get_disk_size g") (simp add: write_callback_def Let_def split: scan.splits)

lemma perform_accounting:
  "length (bad_sectors (perform x g)) + repairs_of x g = length (bad_sectors g) \<and>
   unat (reserve_sectors (perform x g)) + repairs_of x g = unat (reserve_sectors g) \<and>
   set (bad_sectors (perform x g)) \<subseteq> set (bad_sectors g) \<and>
   (distinct (bad_sectors g) \<longrightarrow> distinct (bad_sectors (perform x g)))"
proof (cases x)
  case (Read path sz offset)
  then show ?thesis
    by (simp add: read_callback_frame)
next
  case (Write path sz offset)
  obtain len g1 where d: "get_disk_size g = (len, g1)"
    by (cases "get_disk_size g")
  with get_disk_size_frame [of g]
  have same: "bad_sectors g1 = bad_sectors g" "reserve_sectors g1 = reserve_sectors g"
    by simp_all
  from write_scan_accounting [of "request_sectors (clamp_size len sz offset) offset" g1]
  show ?thesis
    unfolding Write by (simp add: write_callback_globals d same)
next
  case (Repair sector)
  then show ?thesis
    by (simp add: repair_cases length_remove1_Suc unat_pred set_remove1_subset)
qed

lemma run_append: "run (xs @ ys) g = run ys (run xs g)"
  by (induction xs arbitrary: g) simp_all

lemma run_accounting:
  "length (bad_sectors (run ops g)) + repairs_in ops g = length (bad_sectors g) \<and>
   unat (reserve_sectors (run ops g)) + repairs_in ops g = unat (reserve_sectors g) \<and>
   set (bad_sectors (run ops g)) \<subseteq> set (bad_sectors g) \<and>
   (distinct (bad_sectors g) \<longrightarrow> distinct (bad_sectors (run ops g)))"
proof (induction ops arbitrary: g)
  case Nil
  then show ?case by simp
next
  case (Cons x xs)
  from Cons.IH [of "perform x g"] perform_accounting [of x g] show ?case
    by auto
qed

text \<open>
  Claim C9, as the code has it. After any sequence of reads, writes and repairs with \<open>N\<close>
  successful repairs, the number of entries of the bad-sector list (\<open>bad_sector_count\<close>)
  and the reserve count are each \<open>N\<close> below their starting values. Whatever follows, the
  set of listed sectors does not grow, so a sector that is no longer listed stays so, and
  the reserve count does not grow. When no sector was listed twice at the start, the
  number of entries is the size of the set of bad sectors.
\<close>

theorem repairs_are_accounted_for:
  "bad_sector_count (run ops g) + repairs_in ops g = bad_sector_count g \<and>
   unat (reserve_sectors (run ops g)) + repairs_in ops g = unat (reserve_sectors g) \<and>
   set (bad_sectors (run (ops @ more_ops) g)) \<subseteq> set (bad_sectors (run ops g)) \<and>
   unat (reserve_sectors (run (ops @ more_ops) g)) \<le> unat (reserve_sectors (run ops g)) \<and>
   (distinct (bad_sectors g) \<longrightarrow>
      card (set (bad_sectors (run ops g))) + repairs_in ops g = card (set (bad_sectors g)))"
proof -
  note a = run_accounting [of ops g]
  note b = run_accounting [of more_ops "run ops g"]
  have "distinct (bad_sectors g) \<longrightarrow>
      card (set (bad_sectors (run ops g))) + repairs_in ops g = card (set (bad_sectors g))"
    using a by (auto simp: distinct_card)
  moreover have "unat (reserve_sectors (run (ops @ more_ops) g)) \<le> unat (reserve_sectors (run ops g))"
    using b by (simp add: run_append)
  ultimately show ?thesis
    using a b by (simp add: run_append bad_sector_count_def)
qed

text \<open>
  A write that repairs sector 10 and then fails at sector 11, followed by a read: one
  successful repair, one entry and one reserve sector less.
\<close>

theorem repairs_are_accounted_for_witness:
  "repairs_in [Write ''/disk.img'' 1024 5120, Read ''/disk.img'' 512 0] two_bad = 1 \<and>
   bad_sector_count (run [Write ''/disk.img'' 1024 5120, Read ''/disk.img'' 512 0] two_bad) + 1 = 2 \<and>
   unat (reserve_sectors (run [Write ''/disk.img'' 1024 5120, Read ''/disk.img'' 512 0] two_bad)) + 1 = 1 \<and>
   card (set (bad_sectors (run [Write ''/disk.img'' 1024 5120, Read ''/disk.img'' 512 0] two_bad))) + 1 = 2"
proof -
  let ?ops = "[Write ''/disk.img'' 1024 5120, Read ''/disk.img'' 512 0]"
  have n: "repairs_in ?ops two_bad = 1"
    by code_simp
  have d: "distinct (bad_sectors two_bad)" "bad_sector_count two_bad = 2"
    "unat (reserve_sectors two_bad) = 1" "card (set (bad_sectors two_bad)) = 2"
    by (simp_all add: two_bad_def bad_sector_count_def)
  from repairs_are_accounted_for [of ?ops two_bad "[]"] n d show ?thesis
    by simp
qed

text \<open>
  Claim C9 as the specification states it fails when a sector is listed twice: a write
  to sector 7 makes one successful repair, and the set of bad sectors is as large as
  before.
\<close>

theorem duplicate_entry_keeps_set_size:
  "repairs_in [Write ''/disk.img'' 512 3584] listed_twice = 1 \<and>
   card (set (bad_sectors (run [Write ''/disk.img'' 512 3584] listed_twice))) =
     card (set (bad_sectors listed_twice)) \<and>
   card (set (bad_sectors (run [Write ''/disk.img'' 512 3584] listed_twice))) \<noteq>
     card (set (bad_sectors listed_twice)) - 1"
  by code_simp


section \<open>The sector range of a request\<close>

lemma sint_small: "unat (w :: 64 word) < 2 ^ 63 \<Longrightarrow> sint w = int (unat w)"
proof -
  assume a: "unat w < 2 ^ 63"
  have "int (unat w) < int (2 ^ 63)"
    using a by (simp only: of_nat_less_iff)
  then have "uint w < 2 ^ 63"
    by simp
  then have "signed_take_bit 63 (uint w) = uint w"
    by (intro signed_take_bit_int_eq_self) (simp_all add: order_trans [of _ 0])
  then show ?thesis
    by (simp add: sint_uint)
qed

lemma nonneg_small: "0 \<le> sint (w :: 64 word) \<Longrightarrow> unat w < 2 ^ 63"
proof (rule ccontr)
  assume a: "0 \<le> sint w" and "\<not> unat w < 2 ^ 63"
  then have "int (2 ^ 63) \<le> int (unat w)"
    by (simp only: of_nat_le_iff not_less)
  then have "2 ^ 63 \<le> uint w"
    by simp
  then have b: "signed_take_bit 63 (uint w) \<le> uint w - 2 ^ Suc 63"
    by (rule signed_take_bit_int_less_eq)
  define x where "x = signed_take_bit 63 (uint w)"
  have c: "uint w < 2 ^ Suc 63"
    using uint_bounded [of w] by simp
  have "sint w = x"
    unfolding x_def sint_uint by simp
  with a have "0 \<le> x"
    by simp
  with b c show False
    unfolding x_def [symmetric] by linarith
qed

lemma upto_upt: "[int a .. int b] = map int [a ..< Suc b]"
proof (induction b)
  case 0
  then show ?case by (cases a) (simp_all add: upto.simps)
next
  case (Suc b)
  show ?case
  proof (cases "a \<le> Suc b")
    case True
    then have "[int a .. int (Suc b)] = [int a .. int b] @ [int (Suc b)]"
      using upto_rec2 [of "int a" "int (Suc b)"] by simp
    with Suc True show ?thesis by simp
  next
    case False
    then show ?thesis by (simp add: upto.simps)
  qed
qed

lemma request_sectors_nat:
  assumes "unat offset + unat n + 511 < 2 ^ 64"
  shows "request_sectors n offset =
    map of_nat [unat offset div 512 ..< Suc ((unat offset + unat n + 511) div 512)]"
proof -
  have f: "unat (first_sector offset) = unat offset div 512"
    by (simp add: first_sector_def sector_size_def unat_div)
  have s1: "unat (offset + n) = unat offset + unat n"
    using assms by (intro iffD1 [OF unat_add_lem]) simp
  have s2: "unat (offset + n + 511) = unat offset + unat n + 511"
    using assms s1 unat_add_lem [of "offset + n" 511] by simp
  have e: "offset + n + sector_size - 1 = offset + n + 511"
    by (simp add: sector_size_def)
  have "last_sector n offset = (offset + n + 511) div 512"
    by (simp only: last_sector_def e) (simp only: sector_size_def)
  then have "unat (last_sector n offset) = unat (offset + n + 511) div unat (512 :: 64 word)"
    by (simp only: unat_div)
  also have "\<dots> = (unat offset + unat n + 511) div 512"
    by (simp only: s2) simp
  finally have l: "unat (last_sector n offset) = (unat offset + unat n + 511) div 512" .
  have "unat offset div 512 < 2 ^ 63" "(unat offset + unat n + 511) div 512 < 2 ^ 63"
    using assms by simp_all
  with f l have "sint (first_sector offset) = int (unat offset div 512)"
    "sint (last_sector n offset) = int ((unat offset + unat n + 511) div 512)"
    by (simp_all add: sint_small)
  then show ?thesis
    by (simp add: request_sectors_def sector_loop_def upto_upt)
qed


lemma ceilDiv_512: "(a + 511) div 512 = ceilDiv a 512"
proof (cases "512 dvd a")
  case True
  then obtain q where "a = 512 * q"
    by (elim dvdE)
  then show ?thesis
    by (simp add: ceilDiv_def)
next
  case False
  define q where "q = a div 512"
  define r where "r = a mod 512"
  have a: "a = r + q * 512"
    by (simp add: q_def r_def)
  have r: "0 < r" "r < 512"
    using False by (simp_all add: r_def dvd_eq_mod_eq_0)
  then have "a + 511 = (r - 1) + Suc q * 512"
    by (simp add: a)
  then have "(a + 511) div 512 = (r - 1) div 512 + Suc q"
    by (simp only: div_mult_self3) simp
  with r False show ?thesis
    by (simp add: ceilDiv_def q_def)
qed

lemma ceilDiv_512_boundary:
  assumes "0 < a" and "512 dvd a"
  shows "ceilDiv a 512 = Suc ((a - 1) div 512)"
proof -
  from assms(2) obtain q where a: "a = 512 * q"
    by (elim dvdE)
  with assms(1) obtain p where q: "q = Suc p"
    by (cases q) simp_all
  have "a - 1 = 511 + p * 512"
    by (simp add: a q)
  then have "(a - 1) div 512 = p"
    by simp
  then show ?thesis
    by (simp add: ceilDiv_def a q)
qed

lemma clamp_size_within:
  assumes "unat offset + unat n \<le> unat len"
  shows "clamp_size len n offset = n"
proof -
  have "unat len < 2 ^ 64"
    using unsigned_less [of len, where 'a = nat] by simp
  with assms have "unat offset + unat n < 2 ^ LENGTH(64)"
    by simp
  then have "unat (offset + n) = unat offset + unat n"
    by (simp only: unat_add_lem)
  with assms have "\<not> len < offset + n"
    by (simp add: word_less_nat_alt)
  then show ?thesis
    by (simp add: clamp_size_def)
qed

lemma clamp_size_overrun:
  assumes "\<not> len \<le> offset" and "unat offset + unat sz < 2 ^ 64" and "unat len < unat offset + unat sz"
  shows "clamp_size len sz offset = len - offset \<and> unat (len - offset) = unat len - unat offset"
proof -
  from assms(2) have "unat offset + unat sz < 2 ^ LENGTH(64)"
    by simp
  then have "unat (offset + sz) = unat offset + unat sz"
    by (simp only: unat_add_lem)
  with assms(3) have "len < offset + sz"
    by (simp add: word_less_nat_alt)
  moreover from assms(1) have "offset \<le> len"
    by simp
  ultimately show ?thesis
    by (simp add: clamp_size_def unat_sub)
qed

lemma read_scan_range:
  "read_scan (map of_nat [lo ..< Suc hi]) bad \<longleftrightarrow>
     (\<exists>k. lo \<le> k \<and> k \<le> hi \<and> of_nat k \<in> set bad)"
  by (auto simp: read_scan_iff)

lemma write_scan_none_listed:
  "\<forall>x \<in> set ss. x \<notin> set (bad_sectors g) \<Longrightarrow> write_scan ss g = Completed g"
  by (induction ss) (simp_all add: write_scan_Cons del: write_scan.simps(2))

lemma write_scan_no_reserve:
  "reserve_sectors g = 0 \<Longrightarrow>
     write_scan ss g = (if \<exists>x \<in> set ss. x \<in> set (bad_sectors g) then Aborted g else Completed g)"
  by (induction ss) (auto simp add: write_scan_Cons simp del: write_scan.simps(2))

lemma write_scan_checks:
  assumes "x \<in> set ss" and "x \<in> set (bad_sectors g)"
  shows "(\<exists>g1. write_scan ss g = Aborted g1) \<or>
    count_list (bad_sectors (scan_globals (write_scan ss g))) x < count_list (bad_sectors g) x"
  using assms
proof (induction ss arbitrary: g)
  case Nil
  then show ?case by simp
next
  case (Cons s ss)
  let ?g1 = "g\<lparr>bad_sectors := remove1 s (bad_sectors g), reserve_sectors := reserve_sectors g - 1\<rparr>"
  show ?case
  proof (cases "s \<in> set (bad_sectors g)")
    case False
    with Cons.prems have "x \<in> set ss"
      by auto
    from Cons.IH [OF this Cons.prems(2)] False show ?thesis
      by (simp add: write_scan_Cons del: write_scan.simps(2))
  next
    case True
    show ?thesis
    proof (cases "0 < reserve_sectors g")
      case False
      with True show ?thesis
        by (simp add: write_scan_Cons del: write_scan.simps(2))
    next
      case res: True
      have ws: "write_scan (s # ss) g = write_scan ss ?g1"
        using True res by (simp add: write_scan_Cons del: write_scan.simps(2))
      show ?thesis
      proof (cases "x = s")
        case True
        have pos: "0 < count_list (bad_sectors g) x"
          using Cons.prems(2) count_list_0_iff [of "bad_sectors g" x] by fastforce
        have "count_list (bad_sectors (scan_globals (write_scan ss ?g1))) x
            \<le> count_list (bad_sectors ?g1) x"
          by (rule write_scan_count_le)
        also have "\<dots> = count_list (bad_sectors g) x - 1"
          using True by (simp add: count_list_remove1)
        also have "\<dots> < count_list (bad_sectors g) x"
          using pos by simp
        finally show ?thesis
          by (simp only: ws simp_thms)
      next
        case False
        with Cons.prems have "x \<in> set ss" "x \<in> set (bad_sectors ?g1)"
          by simp_all
        then have "(\<exists>g2. write_scan ss ?g1 = Aborted g2) \<or>
            count_list (bad_sectors (scan_globals (write_scan ss ?g1))) x
              < count_list (bad_sectors ?g1) x"
          by (rule Cons.IH)
        moreover have "count_list (bad_sectors ?g1) x = count_list (bad_sectors g) x"
          using False by (simp add: count_list_remove1)
        ultimately show ?thesis
          by (simp only: ws)
      qed
    qed
  qed
qed

lemma set_sector_range:
  "x \<in> set (map of_nat [lo ..< Suc hi]) \<longleftrightarrow> (\<exists>k. lo \<le> k \<and> k \<le> hi \<and> x = of_nat k)"
  by auto

text \<open>
  Claim C4. Take a read or write of the image that starts below its end, with a length
  \<open>n\<close> that stays within the image (the length after the truncation), the size of the
  image being a non-negative \<open>off_t\<close>. The sectors checked are \<open>offset / 512\<close> up to and
  including \<open>ceilDiv (offset + n) 512\<close>, in ascending order. The read fails exactly when
  one of them is listed. The write scans exactly them: when none of them is listed it
  goes through to \<open>pwrite\<close> and changes nothing; when one of them is listed and no reserve
  sector is left it fails with \<open>EIO\<close>; and for each of them that is listed, either the
  write fails with \<open>EIO\<close> or one entry of that sector has been repaired away. When
  \<open>offset + n\<close> is a multiple of 512, the last sector checked is one past the sector of
  the last byte, \<open>offset + n - 1\<close>.
\<close>

theorem sector_range_first_to_ceiling:
  assumes "path = filepath g"
    and "get_disk_size g = (len, g1)"
    and "\<not> len \<le> offset"
    and "unat offset + unat n \<le> unat len"
    and "0 \<le> sint len"
  shows "request_sectors (clamp_size len n offset) offset =
           map of_nat [unat offset div 512 ..< Suc (ceilDiv (unat offset + unat n) 512)] \<and>
         read_callback path n offset g =
           ((if \<exists>k. unat offset div 512 \<le> k \<and> k \<le> ceilDiv (unat offset + unat n) 512 \<and>
                  of_nat k \<in> set (bad_sectors g)
             then Ret_eio else Ret_pread n offset), g1) \<and>
         write_callback path n offset g =
           (case write_scan
              (map of_nat [unat offset div 512 ..< Suc (ceilDiv (unat offset + unat n) 512)]) g1 of
              Aborted g2 \<Rightarrow> (Ret_eio, g2)
            | Completed g2 \<Rightarrow> (Ret_pwrite n offset, g2)) \<and>
         ((\<forall>k. unat offset div 512 \<le> k \<and> k \<le> ceilDiv (unat offset + unat n) 512 \<longrightarrow>
              of_nat k \<notin> set (bad_sectors g)) \<longrightarrow>
            write_callback path n offset g = (Ret_pwrite n offset, g1)) \<and>
         ((\<exists>k. unat offset div 512 \<le> k \<and> k \<le> ceilDiv (unat offset + unat n) 512 \<and>
              of_nat k \<in> set (bad_sectors g)) \<and> reserve_sectors g = 0 \<longrightarrow>
            write_callback path n offset g = (Ret_eio, g1)) \<and>
         (\<forall>k. unat offset div 512 \<le> k \<and> k \<le> ceilDiv (unat offset + unat n) 512 \<and>
              of_nat k \<in> set (bad_sectors g) \<longrightarrow>
            fst (write_callback path n offset g) = Ret_eio \<or>
            count_list (bad_sectors (snd (write_callback path n offset g))) (of_nat k)
              < count_list (bad_sectors g) (of_nat k)) \<and>
         (0 < unat n \<and> 512 dvd (unat offset + unat n) \<longrightarrow>
            ceilDiv (unat offset + unat n) 512 = Suc ((unat offset + unat n - 1) div 512))"
proof -
  define lo where "lo = unat offset div 512"
  define hi where "hi = ceilDiv (unat offset + unat n) 512"
  define ss :: "64 word list" where "ss = map of_nat [lo ..< Suc hi]"
  have c: "clamp_size len n offset = n"
    using assms(4) by (rule clamp_size_within)
  have "unat len < 2 ^ 63"
    using assms(5) by (rule nonneg_small)
  with assms(4) have "unat offset + unat n + 511 < 2 ^ 64"
    by simp
  then have r: "request_sectors n offset = ss"
    unfolding ss_def lo_def hi_def by (simp only: request_sectors_nat ceilDiv_512)
  have b: "bad_sectors g1 = bad_sectors g" "reserve_sectors g1 = reserve_sectors g"
    using get_disk_size_frame [of g] assms(2) by simp_all
  have mem: "x \<in> set ss \<longleftrightarrow> (\<exists>k. lo \<le> k \<and> k \<le> hi \<and> x = of_nat k)" for x
    unfolding ss_def by (rule set_sector_range)
  have rd: "read_callback path n offset g =
      ((if \<exists>k. lo \<le> k \<and> k \<le> hi \<and> of_nat k \<in> set (bad_sectors g)
        then Ret_eio else Ret_pread n offset), g1)"
  proof -
    have "read_scan (request_sectors n offset) (bad_sectors g1) \<longleftrightarrow>
        (\<exists>k. lo \<le> k \<and> k \<le> hi \<and> of_nat k \<in> set (bad_sectors g))"
      unfolding r b ss_def by (rule read_scan_range)
    with assms(1-3) show ?thesis
      by (auto simp: read_callback_def c)
  qed
  have wr: "write_callback path n offset g =
      (case write_scan ss g1 of
         Aborted g2 \<Rightarrow> (Ret_eio, g2)
       | Completed g2 \<Rightarrow> (Ret_pwrite n offset, g2))"
    using assms(1-3) by (simp add: write_callback_def c r)
  have clean: "write_callback path n offset g = (Ret_pwrite n offset, g1)"
    if "\<forall>k. lo \<le> k \<and> k \<le> hi \<longrightarrow> of_nat k \<notin> set (bad_sectors g)"
  proof -
    have "\<forall>x \<in> set ss. x \<notin> set (bad_sectors g1)"
    proof
      fix x
      assume "x \<in> set ss"
      then obtain k where "lo \<le> k" "k \<le> hi" "x = of_nat k"
        unfolding mem by (elim exE conjE)
      with that show "x \<notin> set (bad_sectors g1)"
        by (simp add: b)
    qed
    then have "write_scan ss g1 = Completed g1"
      by (rule write_scan_none_listed)
    then show ?thesis
      by (simp add: wr)
  qed
  have spent: "write_callback path n offset g = (Ret_eio, g1)"
    if "(\<exists>k. lo \<le> k \<and> k \<le> hi \<and> of_nat k \<in> set (bad_sectors g)) \<and> reserve_sectors g = 0"
  proof -
    from that obtain k where k: "lo \<le> k" "k \<le> hi" "of_nat k \<in> set (bad_sectors g)"
      by (elim exE conjE)
    then have "of_nat k \<in> set ss"
      unfolding mem by (intro exI [of _ k] conjI refl)
    with k(3) have "\<exists>x \<in> set ss. x \<in> set (bad_sectors g1)"
      unfolding b by (rule bexI)
    moreover from that have "reserve_sectors g1 = 0"
      by (simp add: b)
    ultimately have "write_scan ss g1 = Aborted g1"
      by (simp add: write_scan_no_reserve)
    then show ?thesis
      by (simp add: wr)
  qed
  have checked: "fst (write_callback path n offset g) = Ret_eio \<or>
      count_list (bad_sectors (snd (write_callback path n offset g))) (of_nat k)
        < count_list (bad_sectors g) (of_nat k)"
    if "lo \<le> k \<and> k \<le> hi \<and> of_nat k \<in> set (bad_sectors g)" for k
  proof -
    from that have "of_nat k \<in> set ss"
      unfolding mem by (intro exI [of _ k]) simp
    moreover from that have "of_nat k \<in> set (bad_sectors g1)"
      by (simp add: b)
    ultimately
    have "(\<exists>g2. write_scan ss g1 = Aborted g2) \<or>
        count_list (bad_sectors (scan_globals (write_scan ss g1))) (of_nat k)
          < count_list (bad_sectors g1) (of_nat k)"
      by (rule write_scan_checks)
    then show ?thesis
      unfolding wr b by (cases "write_scan ss g1") auto
  qed
  have q: "0 < unat n \<and> 512 dvd (unat offset + unat n) \<longrightarrow>
      hi = Suc ((unat offset + unat n - 1) div 512)"
    unfolding hi_def using ceilDiv_512_boundary [of "unat offset + unat n"] by simp
  from r rd wr clean spent checked q show ?thesis
    unfolding c ss_def lo_def hi_def by blast
qed


text \<open>
  Reading or writing the 512 bytes of sector 9 ends on a sector boundary: sectors 9 and
  10 are checked. The read fails because sector 10 is listed; the write repairs sector 10
  with the one reserve sector, and fails when there is none. Writing sector 0 checks
  sectors 0 and 1, neither listed, and goes through.
\<close>

theorem sector_range_first_to_ceiling_witness:
  "read_callback ''/disk.img'' 512 4608 two_bad = (Ret_eio, two_bad\<lparr>disk_size := 8192\<rparr>) \<and>
   request_sectors (clamp_size 8192 512 4608) 4608 = [9, 10] \<and>
   ceilDiv (4608 + 512) 512 = Suc ((4608 + 512 - 1) div 512) \<and>
   write_callback ''/disk.img'' 512 4608 two_bad =
     (Ret_pwrite 512 4608,
      two_bad\<lparr>bad_sectors := [11], reserve_sectors := 0, disk_size := 8192\<rparr>) \<and>
   write_callback ''/disk.img'' 512 4608 (two_bad\<lparr>reserve_sectors := 0\<rparr>) =
     (Ret_eio, two_bad\<lparr>reserve_sectors := 0, disk_size := 8192\<rparr>) \<and>
   write_callback ''/disk.img'' 512 0 two_bad = (Ret_pwrite 512 0, two_bad\<lparr>disk_size := 8192\<rparr>)"
proof -
  let ?spent = "two_bad\<lparr>reserve_sectors := 0\<rparr>"
  have a: "''/disk.img'' = filepath two_bad" "''/disk.img'' = filepath ?spent"
    by (simp_all add: two_bad_def)
  have b: "get_disk_size two_bad = (8192, two_bad\<lparr>disk_size := 8192\<rparr>)"
    "get_disk_size ?spent = (8192, two_bad\<lparr>reserve_sectors := 0, disk_size := 8192\<rparr>)"
    by (simp_all add: two_bad_def get_disk_size_def)
  have c: "\<not> (8192 :: 64 word) \<le> 4608" "\<not> (8192 :: 64 word) \<le> 0"
    by simp_all
  have d: "unat (4608 :: 64 word) + unat (512 :: 64 word) \<le> unat (8192 :: 64 word)"
    "unat (0 :: 64 word) + unat (512 :: 64 word) \<le> unat (8192 :: 64 word)"
    by simp_all
  have e: "0 \<le> sint (8192 :: 64 word)"
    by simp
  have v: "ceilDiv (unat (4608 :: 64 word) + unat (512 :: 64 word)) 512 = 10"
    "ceilDiv (unat (0 :: 64 word) + unat (512 :: 64 word)) 512 = 1"
    by (simp_all add: ceilDiv_def)
  have ex: "\<exists>k. unat (4608 :: 64 word) div 512 \<le> k \<and>
      k \<le> ceilDiv (unat (4608 :: 64 word) + unat (512 :: 64 word)) 512 \<and>
      of_nat k \<in> set (bad_sectors two_bad)"
    unfolding v by (rule exI [of _ 10]) (simp add: two_bad_def)
  have ex0: "(\<exists>k. unat (4608 :: 64 word) div 512 \<le> k \<and>
      k \<le> ceilDiv (unat (4608 :: 64 word) + unat (512 :: 64 word)) 512 \<and>
      of_nat k \<in> set (bad_sectors ?spent)) \<and> reserve_sectors ?spent = 0"
    unfolding v by (rule conjI, rule exI [of _ 10]) (simp_all add: two_bad_def)
  have low: "(of_nat k :: 64 word) \<notin> set (bad_sectors two_bad)" if "k \<le> 1" for k
  proof (cases k)
    case 0
    then show ?thesis
      by (simp add: two_bad_def)
  next
    case (Suc m)
    with that have "k = 1"
      by simp
    then show ?thesis
      by (simp add: two_bad_def)
  qed
  have none: "\<forall>k. unat (0 :: 64 word) div 512 \<le> k \<and>
      k \<le> ceilDiv (unat (0 :: 64 word) + unat (512 :: 64 word)) 512 \<longrightarrow>
      of_nat k \<notin> set (bad_sectors two_bad)"
    unfolding v using low by simp
  note t = sector_range_first_to_ceiling [OF a(1) b(1) c(1) d(1) e]
  note t0 = sector_range_first_to_ceiling [OF a(2) b(2) c(1) d(1) e]
  note t1 = sector_range_first_to_ceiling [OF a(1) b(1) c(2) d(2) e]
  from t ex have rd: "read_callback ''/disk.img'' 512 4608 two_bad =
      (Ret_eio, two_bad\<lparr>disk_size := 8192\<rparr>)"
    by (simp only: if_True)
  from t have rs: "request_sectors (clamp_size 8192 512 4608) 4608 = [9, 10]"
    unfolding v by (simp add: upt_rec)
  from t have q: "ceilDiv (4608 + 512) 512 = Suc ((4608 + 512 - 1) div 512)"
    by simp
  from t have "write_callback ''/disk.img'' 512 4608 two_bad =
      (case write_scan (map of_nat [unat (4608 :: 64 word) div 512 ..<
          Suc (ceilDiv (unat (4608 :: 64 word) + unat (512 :: 64 word)) 512)])
          (two_bad\<lparr>disk_size := 8192\<rparr>) of
         Aborted g2 \<Rightarrow> (Ret_eio, g2)
       | Completed g2 \<Rightarrow> (Ret_pwrite 512 4608, g2))"
    by (simp only:)
  then have w: "write_callback ''/disk.img'' 512 4608 two_bad =
      (Ret_pwrite 512 4608,
       two_bad\<lparr>bad_sectors := [11], reserve_sectors := 0, disk_size := 8192\<rparr>)"
    unfolding v by (simp add: upt_rec two_bad_def repair_bad_sector_def)
  from t0 have "(\<exists>k. unat (4608 :: 64 word) div 512 \<le> k \<and>
      k \<le> ceilDiv (unat (4608 :: 64 word) + unat (512 :: 64 word)) 512 \<and>
      of_nat k \<in> set (bad_sectors ?spent)) \<and> reserve_sectors ?spent = 0 \<longrightarrow>
      write_callback ''/disk.img'' 512 4608 ?spent =
        (Ret_eio, two_bad\<lparr>reserve_sectors := 0, disk_size := 8192\<rparr>)"
    by (elim conjE)
  then have w0: "write_callback ''/disk.img'' 512 4608 ?spent =
      (Ret_eio, two_bad\<lparr>reserve_sectors := 0, disk_size := 8192\<rparr>)"
    using ex0 by (rule mp)
  from t1 have "(\<forall>k. unat (0 :: 64 word) div 512 \<le> k \<and>
      k \<le> ceilDiv (unat (0 :: 64 word) + unat (512 :: 64 word)) 512 \<longrightarrow>
      of_nat k \<notin> set (bad_sectors two_bad)) \<longrightarrow>
      write_callback ''/disk.img'' 512 0 two_bad =
        (Ret_pwrite 512 0, two_bad\<lparr>disk_size := 8192\<rparr>)"
    by (elim conjE)
  then have w1: "write_callback ''/disk.img'' 512 0 two_bad =
      (Ret_pwrite 512 0, two_bad\<lparr>disk_size := 8192\<rparr>)"
    using none by (rule mp)
  from rd rs q w w0 w1 show ?thesis
    by (simp only: simp_thms)
qed

text \<open>
  Claim C5. A read or write of the image at or beyond its end (\<open>len <= offset\<close>, compared
  as unsigned) returns 0: no \<open>pread\<close> or \<open>pwrite\<close>, no \<open>EIO\<close>, and the list and the reserve
  count are untouched. A request that starts below the end and runs past it is served with
  the size \<open>len - offset\<close>: the sector range and the \<open>pread\<close> or \<open>pwrite\<close> use that size, and
  \<open>EIO\<close> is returned only for a listed sector of that range. Here \<open>offset + size\<close> is below
  \<open>2 ^ 64\<close>, as it is whenever \<open>size\<close> is the size of a buffer in memory and the image size
  is an \<open>off_t\<close>.
\<close>

theorem requests_beyond_the_end:
  assumes "path = filepath g"
    and "get_disk_size g = (len, g1)"
  shows "bad_sectors g1 = bad_sectors g \<and> reserve_sectors g1 = reserve_sectors g \<and>
         (len \<le> offset \<longrightarrow>
            read_callback path sz offset g = (Ret_zero, g1) \<and>
            write_callback path sz offset g = (Ret_zero, g1)) \<and>
         (\<not> len \<le> offset \<and> unat offset + unat sz < 2 ^ 64 \<and>
          unat len < unat offset + unat sz \<longrightarrow>
            clamp_size len sz offset = len - offset \<and>
            unat (len - offset) = unat len - unat offset \<and>
            read_callback path sz offset g =
              ((if read_scan (request_sectors (len - offset) offset) (bad_sectors g1)
                then Ret_eio else Ret_pread (len - offset) offset), g1) \<and>
            write_callback path sz offset g =
              (case write_scan (request_sectors (len - offset) offset) g1 of
                 Aborted g2 \<Rightarrow> (Ret_eio, g2)
               | Completed g2 \<Rightarrow> (Ret_pwrite (len - offset) offset, g2)))"
proof -
  have frame: "bad_sectors g1 = bad_sectors g \<and> reserve_sectors g1 = reserve_sectors g"
    using get_disk_size_frame [of g] assms(2) by simp
  have beyond: "read_callback path sz offset g = (Ret_zero, g1) \<and>
      write_callback path sz offset g = (Ret_zero, g1)" if "len \<le> offset"
    using that assms by (simp add: read_callback_def write_callback_def)
  have overrun: "clamp_size len sz offset = len - offset \<and>
      unat (len - offset) = unat len - unat offset \<and>
      read_callback path sz offset g =
        ((if read_scan (request_sectors (len - offset) offset) (bad_sectors g1)
          then Ret_eio else Ret_pread (len - offset) offset), g1) \<and>
      write_callback path sz offset g =
        (case write_scan (request_sectors (len - offset) offset) g1 of
           Aborted g2 \<Rightarrow> (Ret_eio, g2)
         | Completed g2 \<Rightarrow> (Ret_pwrite (len - offset) offset, g2))"
    if h: "\<not> len \<le> offset" "unat offset + unat sz < 2 ^ 64" "unat len < unat offset + unat sz"
  proof -
    note c = clamp_size_overrun [OF h]
    with assms h(1) show ?thesis
      by (simp add: read_callback_def write_callback_def Let_def)
  qed
  from frame beyond overrun show ?thesis
    by blast
qed

text \<open>
  On the 8192-byte image with no bad sector: requests at offset 8192 return 0, and 4096
  bytes at offset 6144 are cut to 2048.
\<close>

theorem requests_beyond_the_end_witness:
  "read_callback ''/disk.img'' 512 8192 fresh = (Ret_zero, fresh\<lparr>disk_size := 8192\<rparr>) \<and>
   write_callback ''/disk.img'' 512 8192 fresh = (Ret_zero, fresh\<lparr>disk_size := 8192\<rparr>) \<and>
   read_callback ''/disk.img'' 4096 6144 fresh = (Ret_pread 2048 6144, fresh\<lparr>disk_size := 8192\<rparr>) \<and>
   write_callback ''/disk.img'' 4096 6144 fresh = (Ret_pwrite 2048 6144, fresh\<lparr>disk_size := 8192\<rparr>)"
proof -
  have a: "''/disk.img'' = filepath fresh"
    by (simp add: fresh_def)
  have b: "get_disk_size fresh = (8192, fresh\<lparr>disk_size := 8192\<rparr>)"
    by (simp add: fresh_def get_disk_size_def)
  have beyond: "(8192 :: 64 word) \<le> 8192"
    by simp
  have over: "\<not> (8192 :: 64 word) \<le> 6144 \<and>
      unat (6144 :: 64 word) + unat (4096 :: 64 word) < 2 ^ 64 \<and>
      unat (8192 :: 64 word) < unat (6144 :: 64 word) + unat (4096 :: 64 word)"
    by simp
  have none: "bad_sectors (fresh\<lparr>disk_size := 8192\<rparr>) = []"
    by (simp add: fresh_def)
  have rs: "\<not> read_scan ss []" for ss
    by (induction ss) simp_all
  have ws: "write_scan ss (fresh\<lparr>disk_size := 8192\<rparr>) = Completed (fresh\<lparr>disk_size := 8192\<rparr>)" for ss
    by (induction ss) (simp_all add: none)
  from requests_beyond_the_end [OF a b, of 8192 512] beyond
  have "read_callback ''/disk.img'' 512 8192 fresh = (Ret_zero, fresh\<lparr>disk_size := 8192\<rparr>) \<and>
      write_callback ''/disk.img'' 512 8192 fresh = (Ret_zero, fresh\<lparr>disk_size := 8192\<rparr>)"
    by blast
  moreover from requests_beyond_the_end [OF a b, of 6144 4096] over
  have "read_callback ''/disk.img'' 4096 6144 fresh =
      ((if read_scan (request_sectors (8192 - 6144) 6144) (bad_sectors (fresh\<lparr>disk_size := 8192\<rparr>))
        then Ret_eio else Ret_pread (8192 - 6144) 6144), fresh\<lparr>disk_size := 8192\<rparr>) \<and>
      write_callback ''/disk.img'' 4096 6144 fresh =
      (case write_scan (request_sectors (8192 - 6144) 6144) (fresh\<lparr>disk_size := 8192\<rparr>) of
         Aborted g2 \<Rightarrow> (Ret_eio, g2)
       | Completed g2 \<Rightarrow> (Ret_pwrite (8192 - 6144) 6144, g2))"
    by blast
  ultimately show ?thesis
    by (simp add: none rs ws)
qed

text \<open>
  The bound on \<open>offset + size\<close> is needed: the test \<open>offset + size > len\<close> is computed in
  \<open>size_t\<close>, so at offset 1 a size of \<open>2 ^ 64 - 1\<close> (which no buffer has) makes the sum 0 and
  the size is passed on as it came.
\<close>

lemma wrapped_sum_is_not_clamped:
  "\<not> (8192 :: 64 word) \<le> 1 \<and>
   unat (8192 :: 64 word) < unat (1 :: 64 word) + unat (- 1 :: 64 word) \<and>
   read_callback ''/disk.img'' (- 1) 1 fresh = (Ret_pread (- 1) 1, fresh\<lparr>disk_size := 8192\<rparr>) \<and>
   write_callback ''/disk.img'' (- 1) 1 fresh = (Ret_pwrite (- 1) 1, fresh\<lparr>disk_size := 8192\<rparr>) \<and>
   (- 1 :: 64 word) \<noteq> 8192 - 1"
proof -
  have a: "\<not> (8192 :: 64 word) \<le> 1"
    by (simp add: word_le_nat_alt)
  have b: "unat (8192 :: 64 word) < unat (1 :: 64 word) + unat (- 1 :: 64 word)"
    by (simp add: unsigned_minus_1_eq_mask mask_eq_exp_minus_1)
  have c: "clamp_size 8192 (- 1) 1 = - 1"
    by (simp add: clamp_size_def)
  have d: "request_sectors (- 1) 1 = [0]"
    by (simp add: request_sectors_def sector_loop_def first_sector_def last_sector_def
        sector_size_def upto.simps)
  have g: "get_disk_size fresh = (8192, fresh\<lparr>disk_size := 8192\<rparr>)"
    by (simp add: fresh_def get_disk_size_def)
  have r: "read_callback ''/disk.img'' (- 1) 1 fresh =
      (Ret_pread (- 1) 1, fresh\<lparr>disk_size := 8192\<rparr>)"
    by (simp add: read_callback_def g a c d) (simp add: fresh_def)
  have w: "write_callback ''/disk.img'' (- 1) 1 fresh =
      (Ret_pwrite (- 1) 1, fresh\<lparr>disk_size := 8192\<rparr>)"
    by (simp add: write_callback_def g a c d) (simp add: fresh_def)
  have e: "(- 1 :: 64 word) \<noteq> 8192 - 1"
    by simp
  from a b r w e show ?thesis
    by (simp only: simp_thms)
qed


section \<open>Reading decimal numbers\<close>

lemma isdigit_chars:
  assumes "isdigit c"
  shows "\<not> isspace c" and "c \<noteq> CHR ''-''" and "c \<noteq> CHR ''+''" and "c \<noteq> CHR '',''"
  using assms by (auto simp: isdigit_def isspace_def)

lemma digit_char:
  assumes "d < 10"
  shows "isdigit (char_of (48 + d))" and "digit_value (char_of (48 + d)) = d"
  using assms by (simp_all add: isdigit_def digit_value_def)

lemma digits_all: "\<forall>c \<in> set (digits n). isdigit c"
proof (induction n rule: digits.induct)
  case (1 n)
  show ?case
  proof (cases "n < 10")
    case True
    then show ?thesis
      by (subst digits.simps) (simp add: digit_char)
  next
    case False
    with 1 have "\<forall>c \<in> set (digits (n div 10)). isdigit c"
      by simp
    moreover have "isdigit (char_of (48 + n mod 10))"
      by (rule digit_char) simp
    ultimately show ?thesis
      using False by (subst digits.simps) simp
  qed
qed

lemma digits_not_Nil: "digits n \<noteq> []"
  by (subst digits.simps) simp

lemma decimal_value_snoc:
  "decimal_value (ds @ [c]) = 10 * decimal_value ds + digit_value c"
  by (simp add: decimal_value_def)

lemma decimal_value_digits: "decimal_value (digits n) = n"
proof (induction n rule: digits.induct)
  case (1 n)
  show ?case
  proof (cases "n < 10")
    case True
    then show ?thesis
      by (subst digits.simps) (simp add: decimal_value_def digit_char)
  next
    case False
    with 1 have "decimal_value (digits (n div 10)) = n div 10"
      by simp
    moreover have "digit_value (char_of (48 + n mod 10)) = n mod 10"
      by (rule digit_char) simp
    ultimately show ?thesis
      using False by (subst digits.simps) (simp add: decimal_value_snoc)
  qed
qed

lemma takeWhile_digits:
  assumes "rest = [] \<or> \<not> isdigit (hd rest)"
  shows "takeWhile isdigit (digits n @ rest) = digits n"
    and "dropWhile isdigit (digits n @ rest) = rest"
proof -
  have r: "takeWhile isdigit rest = []" "dropWhile isdigit rest = rest"
    using assms by (cases rest; simp)+
  show "takeWhile isdigit (digits n @ rest) = digits n"
    using digits_all [of n] r by (simp add: takeWhile_append2)
  show "dropWhile isdigit (digits n @ rest) = rest"
    using digits_all [of n] r by (simp add: dropWhile_append2)
qed

lemma strtoul_plain:
  assumes "\<not> isspace c" and "c \<noteq> CHR ''-''" and "c \<noteq> CHR ''+''"
  shows "strtoul (c # cs) =
    (if takeWhile isdigit (c # cs) = [] then (0, c # cs)
     else ((if 2 ^ 64 \<le> decimal_value (takeWhile isdigit (c # cs)) then - 1
            else of_nat (decimal_value (takeWhile isdigit (c # cs)))),
           dropWhile isdigit (c # cs)))"
  using assms by (simp add: strtoul_def Let_def)

lemma strtoul_digits:
  assumes "n < 2 ^ 64" and "rest = [] \<or> \<not> isdigit (hd rest)"
  shows "strtoul (digits n @ rest) = (of_nat n, rest)"
proof -
  obtain c cs where d: "digits n = c # cs"
    using digits_not_Nil [of n] by (cases "digits n") simp_all
  with digits_all [of n] have c: "isdigit c"
    by simp
  have e: "digits n @ rest = c # (cs @ rest)"
    by (simp add: d)
  have t: "takeWhile isdigit (c # (cs @ rest)) = digits n"
    "dropWhile isdigit (c # (cs @ rest)) = rest"
    using takeWhile_digits [OF assms(2), of n] by (simp_all only: e)
  have v: "\<not> (2 :: nat) ^ 64 \<le> n"
    using assms(1) by (simp only: not_le)
  have "strtoul (c # (cs @ rest)) =
      (if digits n = [] then (0, c # (cs @ rest))
       else ((if 2 ^ 64 \<le> decimal_value (digits n) then - 1
              else of_nat (decimal_value (digits n))), rest))"
    using strtoul_plain [OF isdigit_chars(1-3) [OF c], of "cs @ rest"] by (simp only: t)
  then show ?thesis
    by (simp only: e decimal_value_digits digits_not_Nil v if_False)
qed


section \<open>Parsing one term\<close>

lemma get_sector_count_end:
  "strtoul s = (v, []) \<Longrightarrow> get_sector_count s = 1"
  by (subst get_sector_count.simps) simp


lemma get_sector_count_comma:
  "strtoul s = (v, CHR '','' # r) \<Longrightarrow> get_sector_count s = 1 + get_sector_count r"
  by (subst get_sector_count.simps) simp

lemma get_sector_count_range_end:
  "strtoul s = (v, CHR ''-'' # r) \<Longrightarrow> strtoul r = (w, []) \<Longrightarrow>
     get_sector_count s = w - v + 1"
  by (subst get_sector_count.simps) simp

lemma get_sector_count_range_comma:
  "strtoul s = (v, CHR ''-'' # r) \<Longrightarrow> strtoul r = (w, CHR '','' # r2) \<Longrightarrow>
     get_sector_count s = w - v + 1 + get_sector_count r2"
  by (subst get_sector_count.simps) simp

lemma add_bad_sectors_end:
  "strtoul s = (v, []) \<Longrightarrow> add_bad_sectors s b = Some [(b, v)]"
  by (subst add_bad_sectors.simps) simp


lemma add_bad_sectors_comma:
  "strtoul s = (v, CHR '','' # r) \<Longrightarrow>
     add_bad_sectors s b = map_option ((#) (b, v)) (add_bad_sectors r (b + 1))"
  by (subst add_bad_sectors.simps) simp

lemma add_bad_sectors_range_end:
  "strtoul s = (v, CHR ''-'' # r) \<Longrightarrow> strtoul r = (w, []) \<Longrightarrow>
     range_loop b v w = Some stores \<Longrightarrow>
     add_bad_sectors s b = Some ((b, v) # stores)"
  by (subst add_bad_sectors.simps) simp

lemma add_bad_sectors_range_comma:
  "strtoul s = (v, CHR ''-'' # r) \<Longrightarrow> strtoul r = (w, CHR '','' # r2) \<Longrightarrow>
     range_loop b v w = Some stores \<Longrightarrow>
     add_bad_sectors s b =
       map_option ((@) ((b, v) # stores)) (add_bad_sectors r2 (b + sint w - sint v + 1))"
  by (subst add_bad_sectors.simps) simp

lemma add_bad_sectors_range_overflow:
  "strtoul s = (v, CHR ''-'' # r) \<Longrightarrow> strtoul r = (w, e) \<Longrightarrow>
     range_loop b v w = None \<Longrightarrow> add_bad_sectors s b = None"
  by (subst add_bad_sectors.simps) simp

lemma unat_of_nat64: "n < 2 ^ 64 \<Longrightarrow> unat (of_nat n :: 64 word) = n"
  by (simp add: unat_of_nat)

lemma sint_of_nat64:
  assumes "n < 2 ^ 63"
  shows "sint (of_nat n :: 64 word) = int n"
proof -
  have "n < 2 ^ 64"
    using assms by (rule less_trans) simp
  then have "unat (of_nat n :: 64 word) = n"
    by (rule unat_of_nat64)
  with assms show ?thesis
    using sint_small [of "of_nat n"] by simp
qed

lemma consecutive_append:
  "consecutive b (xs @ ys) = consecutive b xs @ consecutive (b + int (length xs)) ys"
  by (induction xs arbitrary: b) (simp_all add: algebra_simps)

lemma consecutive_upt:
  "consecutive b (map of_nat [n ..< k]) = map (\<lambda>j. (b + (int j - int n), of_nat j)) [n ..< k]"
proof (induction "k - n" arbitrary: n b)
  case 0
  then show ?case by simp
next
  case (Suc d)
  then have less: "n < k" and d: "d = k - Suc n"
    by simp_all
  have "map (\<lambda>j. (b + 1 + (int j - int (Suc n)), of_nat j :: 64 word)) [Suc n ..< k] =
      map (\<lambda>j. (b + (int j - int n), of_nat j)) [Suc n ..< k]"
    by (rule map_cong) simp_all
  with Suc.hyps(1) [OF d, of "b + 1"] less show ?case
    by (simp add: upt_rec [of n k])
qed

lemma range_stores:
  assumes "n \<le> m" and "m < 2 ^ 63"
  shows "(b, of_nat n) #
      map (\<lambda>i. (b + (i - sint (of_nat n :: 64 word)), word_of_int i))
        [sint (of_nat n :: 64 word) + 1 .. sint (of_nat m :: 64 word)] =
    consecutive b (map of_nat [n ..< Suc m])"
proof -
  have n: "n < 2 ^ 63"
    using assms by (rule le_less_trans)
  have "[int n + 1 .. int m] = map int [Suc n ..< Suc m]"
    using upto_upt [of "Suc n" m] by (simp add: add.commute)
  then have h: "map (\<lambda>i. (b + (i - int n), word_of_int i :: 64 word)) [int n + 1 .. int m] =
      map (\<lambda>j. (b + (int j - int n), of_nat j)) [Suc n ..< Suc m]"
    by (simp add: comp_def)
  have l: "[n ..< Suc m] = n # [Suc n ..< Suc m]"
    using assms(1) by (intro upt_conv_Cons) simp
  have "(b, of_nat n) #
      map (\<lambda>i. (b + (i - sint (of_nat n :: 64 word)), word_of_int i))
        [sint (of_nat n :: 64 word) + 1 .. sint (of_nat m :: 64 word)] =
      (b, of_nat n) # map (\<lambda>i. (b + (i - int n), word_of_int i :: 64 word)) [int n + 1 .. int m]"
    by (simp only: sint_of_nat64 [OF n] sint_of_nat64 [OF assms(2)])
  also have "\<dots> = (b, of_nat n) # map (\<lambda>j. (b + (int j - int n), of_nat j)) [Suc n ..< Suc m]"
    by (simp only: h)
  also have "\<dots> = map (\<lambda>j. (b + (int j - int n), of_nat j)) (n # [Suc n ..< Suc m])"
    by simp
  also have "\<dots> = consecutive b (map of_nat [n ..< Suc m])"
    by (simp only: l [symmetric] consecutive_upt)
  finally show ?thesis .
qed

lemma range_loop_item:
  assumes "n \<le> m" and "m < 2 ^ 63 - 1"
  shows "\<exists>stores. range_loop b (of_nat n) (of_nat m) = Some stores \<and>
    (b, of_nat n) # stores = consecutive b (map of_nat [n ..< Suc m])"
proof -
  have m: "m < 2 ^ 63"
    using assms(2) by simp
  have n: "n < 2 ^ 63"
    using assms(1) m by (rule le_less_trans)
  have "int m < int (2 ^ 63 - 1)"
    using assms(2) by (simp only: of_nat_less_iff)
  then have im: "int m < 2 ^ 63 - 1"
    by simp
  have "int n \<le> int m"
    using assms(1) by simp
  with im have far: "int n \<noteq> 2 ^ 63 - 1" "int m \<noteq> 2 ^ 63 - 1"
    "\<not> 2 ^ 63 - 1 < int m - int n"
    by linarith+
  have "range_loop b (of_nat n) (of_nat m) =
      Some (map (\<lambda>i. (b + (i - sint (of_nat n :: 64 word)), word_of_int i))
        [sint (of_nat n :: 64 word) + 1 .. sint (of_nat m :: 64 word)])"
    unfolding range_loop_def using far
    by (simp only: sint_of_nat64 [OF n] sint_of_nat64 [OF m] simp_thms if_False)
  then show ?thesis
    using range_stores [OF assms(1) m, of b] by blast
qed

lemma range_loop_overflow:
  assumes "m < 2 ^ 63" and "\<not> m < 2 ^ 63 - 1"
  shows "range_loop b (of_nat n) (of_nat m) = None"
proof -
  have "m = 2 ^ 63 - 1"
    using assms by simp
  then have "int m = int (2 ^ 63 - 1)"
    by (simp only:)
  then have "int m = 2 ^ 63 - 1"
    by simp
  then have "sint (of_nat m :: 64 word) = 2 ^ 63 - 1"
    by (simp only: sint_of_nat64 [OF assms(1)])
  then show ?thesis
    unfolding range_loop_def by (simp only: simp_thms if_True)
qed

lemma range_count:
  assumes "n \<le> m"
  shows "(of_nat m :: 64 word) - of_nat n + 1 = of_nat (length [n ..< Suc m])"
proof -
  have "length [n ..< Suc m] = Suc m - n"
    by (simp only: length_upt)
  moreover have "(of_nat (Suc m - n) :: 64 word) = of_nat (Suc m) - of_nat n"
    using assms by (intro of_nat_diff) simp
  ultimately show ?thesis
    by simp
qed

lemma not_digit_sep: "\<not> isdigit CHR '',''" "\<not> isdigit CHR ''-''"
  by (simp_all add: isdigit_def)

lemma strtoul_number:
  assumes "n < 2 ^ 63"
  shows "strtoul (digits n) = (of_nat n, [])"
    and "strtoul (digits n @ CHR '','' # r) = (of_nat n, CHR '','' # r)"
    and "strtoul (digits n @ CHR ''-'' # r) = (of_nat n, CHR ''-'' # r)"
proof -
  have n: "n < 2 ^ 64"
    using assms by (rule less_trans) simp
  show "strtoul (digits n) = (of_nat n, [])"
    using strtoul_digits [OF n, of "[]"] by simp
  show "strtoul (digits n @ CHR '','' # r) = (of_nat n, CHR '','' # r)"
    by (rule strtoul_digits [OF n]) (simp add: not_digit_sep)
  show "strtoul (digits n @ CHR ''-'' # r) = (of_nat n, CHR ''-'' # r)"
    by (rule strtoul_digits [OF n]) (simp add: not_digit_sep)
qed

lemma item_count:
  assumes "item_ok t"
  shows "get_sector_count (item_text t) = of_nat (length (item_sectors t))"
    and "get_sector_count (item_text t @ CHR '','' # r) =
      of_nat (length (item_sectors t)) + get_sector_count r"
proof -
  show "get_sector_count (item_text t) = of_nat (length (item_sectors t))"
  proof (cases t)
    case (Single n)
    with assms have "strtoul (digits n) = (of_nat n, [])"
      by (simp add: strtoul_number)
    then show ?thesis
      by (simp add: Single get_sector_count_end)
  next
    case (Range n m)
    with assms have ok: "n \<le> m" "m < 2 ^ 63" "n < 2 ^ 63"
      by simp_all
    have "strtoul (digits n @ CHR ''-'' # digits m) = (of_nat n, CHR ''-'' # digits m)"
      using ok(3) by (rule strtoul_number)
    moreover have "strtoul (digits m) = (of_nat m, [])"
      using ok(2) by (rule strtoul_number)
    ultimately have "get_sector_count (digits n @ CHR ''-'' # digits m) = of_nat m - of_nat n + 1"
      by (rule get_sector_count_range_end)
    then show ?thesis
      by (simp only: Range item_text.simps item_sectors.simps range_count [OF ok(1)]) simp
  qed
  show "get_sector_count (item_text t @ CHR '','' # r) =
      of_nat (length (item_sectors t)) + get_sector_count r"
  proof (cases t)
    case (Single n)
    with assms have "strtoul (digits n @ CHR '','' # r) = (of_nat n, CHR '','' # r)"
      by (simp add: strtoul_number)
    then show ?thesis
      by (simp add: Single get_sector_count_comma)
  next
    case (Range n m)
    with assms have ok: "n \<le> m" "m < 2 ^ 63" "n < 2 ^ 63"
      by simp_all
    have "strtoul (digits n @ CHR ''-'' # (digits m @ CHR '','' # r)) =
        (of_nat n, CHR ''-'' # (digits m @ CHR '','' # r))"
      using ok(3) by (rule strtoul_number)
    moreover have "strtoul (digits m @ CHR '','' # r) = (of_nat m, CHR '','' # r)"
      using ok(2) by (rule strtoul_number)
    ultimately have "get_sector_count (digits n @ CHR ''-'' # (digits m @ CHR '','' # r)) =
        of_nat m - of_nat n + 1 + get_sector_count r"
      by (rule get_sector_count_range_comma)
    then show ?thesis
      by (simp only: Range item_text.simps item_sectors.simps range_count [OF ok(1)]) simp
  qed
qed

lemma cons_stores: "map_option ((#) x) r = map_option ((@) [x]) r"
  by (cases r) simp_all

lemma item_stores:
  assumes "item_ok t" and "loop_ends t"
  shows "add_bad_sectors (item_text t) b = Some (consecutive b (map of_nat (item_sectors t)))"
    and "add_bad_sectors (item_text t @ CHR '','' # r) b =
      map_option ((@) (consecutive b (map of_nat (item_sectors t))))
        (add_bad_sectors r (b + int (length (item_sectors t))))"
proof -
  show "add_bad_sectors (item_text t) b = Some (consecutive b (map of_nat (item_sectors t)))"
  proof (cases t)
    case (Single n)
    with assms have "strtoul (digits n) = (of_nat n, [])"
      by (simp add: strtoul_number)
    then show ?thesis
      by (simp add: Single add_bad_sectors_end)
  next
    case (Range n m)
    with assms have ok: "n \<le> m" "m < 2 ^ 63 - 1"
      by simp_all
    have m: "m < 2 ^ 63"
      using ok(2) by simp
    have n: "n < 2 ^ 63"
      using ok(1) m by (rule le_less_trans)
    obtain stores where st: "range_loop b (of_nat n) (of_nat m) = Some stores"
      "(b, of_nat n) # stores = consecutive b (map of_nat [n ..< Suc m])"
      using range_loop_item [OF ok, of b] by blast
    have "strtoul (digits n @ CHR ''-'' # digits m) = (of_nat n, CHR ''-'' # digits m)"
      using n by (rule strtoul_number)
    moreover have "strtoul (digits m) = (of_nat m, [])"
      using m by (rule strtoul_number)
    ultimately have "add_bad_sectors (digits n @ CHR ''-'' # digits m) b =
        Some ((b, of_nat n) # stores)"
      using st(1) by (rule add_bad_sectors_range_end)
    then show ?thesis
      by (simp only: Range item_text.simps item_sectors.simps st(2)) simp
  qed
  show "add_bad_sectors (item_text t @ CHR '','' # r) b =
      map_option ((@) (consecutive b (map of_nat (item_sectors t))))
        (add_bad_sectors r (b + int (length (item_sectors t))))"
  proof (cases t)
    case (Single n)
    with assms have "strtoul (digits n @ CHR '','' # r) = (of_nat n, CHR '','' # r)"
      by (simp add: strtoul_number)
    then show ?thesis
      by (simp add: Single add_bad_sectors_comma cons_stores)
  next
    case (Range n m)
    with assms have ok: "n \<le> m" "m < 2 ^ 63 - 1"
      by simp_all
    have m: "m < 2 ^ 63"
      using ok(2) by simp
    have n: "n < 2 ^ 63"
      using ok(1) m by (rule le_less_trans)
    obtain stores where st: "range_loop b (of_nat n) (of_nat m) = Some stores"
      "(b, of_nat n) # stores = consecutive b (map of_nat [n ..< Suc m])"
      using range_loop_item [OF ok, of b] by blast
    have "strtoul (digits n @ CHR ''-'' # (digits m @ CHR '','' # r)) =
        (of_nat n, CHR ''-'' # (digits m @ CHR '','' # r))"
      using n by (rule strtoul_number)
    moreover have "strtoul (digits m @ CHR '','' # r) = (of_nat m, CHR '','' # r)"
      using m by (rule strtoul_number)
    ultimately have "add_bad_sectors (digits n @ CHR ''-'' # (digits m @ CHR '','' # r)) b =
        map_option ((@) ((b, of_nat n) # stores))
          (add_bad_sectors r (b + sint (of_nat m :: 64 word) - sint (of_nat n :: 64 word) + 1))"
      using st(1) by (rule add_bad_sectors_range_comma)
    moreover have "b + sint (of_nat m :: 64 word) - sint (of_nat n :: 64 word) + 1 =
        b + int (length [n ..< Suc m])"
      using ok(1) by (simp add: sint_of_nat64 [OF m] sint_of_nat64 [OF n] del: upt_Suc)
    ultimately have "add_bad_sectors (digits n @ CHR ''-'' # (digits m @ CHR '','' # r)) b =
        map_option ((@) (consecutive b (map of_nat [n ..< Suc m])))
          (add_bad_sectors r (b + int (length [n ..< Suc m])))"
      by (simp only: st(2))
    then show ?thesis
      by (simp only: Range item_text.simps item_sectors.simps) simp
  qed
qed

lemma item_overflow:
  assumes "item_ok t" and "\<not> loop_ends t"
  shows "add_bad_sectors (item_text t) b = None"
    and "add_bad_sectors (item_text t @ CHR '','' # r) b = None"
proof -
  from assms obtain n m where t: "t = Range n m"
    and ok: "n \<le> m" "m < 2 ^ 63" "\<not> m < 2 ^ 63 - 1"
    by (cases t) simp_all
  have n: "n < 2 ^ 63"
    using ok(1,2) by (rule le_less_trans)
  have over: "range_loop b (of_nat n) (of_nat m) = None"
    using ok(2,3) by (rule range_loop_overflow)
  have "strtoul (digits n @ CHR ''-'' # digits m) = (of_nat n, CHR ''-'' # digits m)"
    using n by (rule strtoul_number)
  moreover have "strtoul (digits m) = (of_nat m, [])"
    using ok(2) by (rule strtoul_number)
  ultimately have "add_bad_sectors (digits n @ CHR ''-'' # digits m) b = None"
    using over by (rule add_bad_sectors_range_overflow)
  then show "add_bad_sectors (item_text t) b = None"
    by (simp add: t)
  have "strtoul (digits n @ CHR ''-'' # (digits m @ CHR '','' # r)) =
      (of_nat n, CHR ''-'' # (digits m @ CHR '','' # r))"
    using n by (rule strtoul_number)
  moreover have "strtoul (digits m @ CHR '','' # r) = (of_nat m, CHR '','' # r)"
    using ok(2) by (rule strtoul_number)
  ultimately have "add_bad_sectors (digits n @ CHR ''-'' # (digits m @ CHR '','' # r)) b = None"
    using over by (rule add_bad_sectors_range_overflow)
  then show "add_bad_sectors (item_text t @ CHR '','' # r) b = None"
    by (simp add: t)
qed

section \<open>Parsing a well-formed list\<close>

lemma spec_sectors_Cons: "spec_sectors (t # ts) = item_sectors t @ spec_sectors ts"
  by (simp add: spec_sectors_def)

lemma spec_count:
  assumes "ts \<noteq> []" and "list_all item_ok ts"
  shows "get_sector_count (spec_text ts) = of_nat (length (spec_sectors ts))"
  using assms
proof (induction ts rule: spec_text.induct)
  case 1
  then show ?case by simp
next
  case (2 t)
  then show ?case
    by (simp add: item_count spec_sectors_def)
next
  case (3 t u ts)
  then have "get_sector_count (spec_text (u # ts)) = of_nat (length (spec_sectors (u # ts)))"
    by simp
  moreover have "get_sector_count (item_text t @ CHR '','' # spec_text (u # ts)) =
      of_nat (length (item_sectors t)) + get_sector_count (spec_text (u # ts))"
    using 3 by (intro item_count) simp
  ultimately show ?case
    by (simp add: spec_sectors_Cons [of t])
qed

lemma spec_stores:
  assumes "ts \<noteq> []" and "list_all item_ok ts"
  shows "add_bad_sectors (spec_text ts) b =
    (if list_all loop_ends ts then Some (consecutive b (map of_nat (spec_sectors ts)))
     else None)"
  using assms
proof (induction ts arbitrary: b rule: spec_text.induct)
  case 1
  then show ?case by simp
next
  case (2 t)
  then show ?case
    by (cases "loop_ends t") (simp_all add: item_stores item_overflow spec_sectors_def)
next
  case (3 t u ts)
  then have ok: "item_ok t"
    by simp
  show ?case
  proof (cases "loop_ends t")
    case False
    with ok show ?thesis
      by (simp add: item_overflow)
  next
    case True
    from 3 have "add_bad_sectors (spec_text (u # ts)) (b + int (length (item_sectors t))) =
        (if list_all loop_ends (u # ts)
         then Some (consecutive (b + int (length (item_sectors t)))
           (map of_nat (spec_sectors (u # ts))))
         else None)"
      by simp
    moreover have "add_bad_sectors (item_text t @ CHR '','' # spec_text (u # ts)) b =
        map_option ((@) (consecutive b (map of_nat (item_sectors t))))
          (add_bad_sectors (spec_text (u # ts)) (b + int (length (item_sectors t))))"
      using ok True by (rule item_stores)
    ultimately show ?thesis
      using True by (simp add: spec_sectors_Cons [of t] consecutive_append)
  qed
qed

lemma store_consecutive:
  "store_all (consecutive (int (length pre)) vs) (map Some pre @ replicate (length vs) None) =
     Some (map Some (pre @ vs))"
proof (induction vs arbitrary: pre)
  case Nil
  then show ?case by simp
next
  case (Cons v vs)
  have "(map Some pre @ replicate (length (v # vs)) None)[length pre := Some v] =
      map Some (pre @ [v]) @ replicate (length vs) None"
    by (simp add: list_update_append)
  moreover have "int (length pre) + 1 = int (length (pre @ [v]))"
    by simp
  ultimately show ?case
    using Cons.IH [of "pre @ [v]"] by (simp add: ac_simps del: replicate.simps)
qed

lemma stored_cells:
  "list_all (\<lambda>c. c \<noteq> None) (take (length xs) (map Some xs))"
  "map the (take (length xs) (map Some xs)) = xs"
  by (induction xs) simp_all

lemma malloc_cells_of_nat:
  assumes "n < 2 ^ 61"
  shows "malloc_cells g (of_nat n) =
      (if unat (malloc_limit g) < 8 * n then None else Some (replicate n None))"
    and "unat (of_nat n :: 64 word) = n"
proof -
  have "n * 8 < 2 ^ 64"
    using assms by simp
  then have "unat (of_nat (n * 8) :: 64 word) = n * 8"
    by (rule unat_of_nat64)
  moreover have "(of_nat (n * 8) :: 64 word) = of_nat n * 8"
    by simp
  ultimately have bytes: "unat (of_nat n * 8 :: 64 word) = 8 * n"
    by (simp only: mult.commute)
  then have "malloc_limit g < of_nat n * 8 \<longleftrightarrow> unat (malloc_limit g) < 8 * n"
    by (simp only: word_less_nat_alt)
  moreover have "unat (of_nat n * 8 :: 64 word) div 8 = n"
    by (simp add: bytes)
  ultimately show "malloc_cells g (of_nat n) =
      (if unat (malloc_limit g) < 8 * n then None else Some (replicate n None))"
    unfolding malloc_cells_def by (simp only:)
  have "n < 2 ^ 64"
    using assms by (rule less_trans) simp
  then show "unat (of_nat n :: 64 word) = n"
    by (rule unat_of_nat64)
qed

lemma build_stores:
  assumes "get_sector_count s = of_nat (length vs)"
    and "add_bad_sectors s 0 = Some (consecutive 0 vs)"
    and "length vs < 2 ^ 61"
  shows "build_bad_sector_list (Some s) g =
    (if unat (malloc_limit g) < 8 * length vs then Inl Allocation_refused
     else Inr (g\<lparr>bad_sectors := vs\<rparr>))"
proof (cases "unat (malloc_limit g) < 8 * length vs")
  case True
  then have "malloc_cells g (of_nat (length vs)) = None"
    by (simp only: malloc_cells_of_nat(1) [OF assms(3)] if_True)
  then show ?thesis
    unfolding build_bad_sector_list_def
    by (simp only: option.case Let_def assms(1) True if_True)
next
  case False
  then have block: "malloc_cells g (of_nat (length vs)) = Some (replicate (length vs) None)"
    by (simp only: malloc_cells_of_nat(1) [OF assms(3)] if_False)
  have n: "unat (of_nat (length vs) :: 64 word) = length vs"
    using assms(3) by (rule malloc_cells_of_nat(2))
  have st: "store_all (consecutive 0 vs) (replicate (length vs) None) = Some (map Some vs)"
    using store_consecutive [of "[]" vs] by simp
  show ?thesis
    unfolding build_bad_sector_list_def
    by (simp only: option.case Let_def assms(1,2) block n st length_map stored_cells
        le_refl simp_thms if_True False if_False)
qed

lemma build_overflow:
  assumes "get_sector_count s = of_nat n" and "add_bad_sectors s 0 = None" and "n < 2 ^ 61"
  shows "build_bad_sector_list (Some s) g =
    (if unat (malloc_limit g) < 8 * n then Inl Allocation_refused else Inl Counter_overflow)"
proof (cases "unat (malloc_limit g) < 8 * n")
  case True
  then have "malloc_cells g (of_nat n) = None"
    by (simp only: malloc_cells_of_nat(1) [OF assms(3)] if_True)
  then show ?thesis
    unfolding build_bad_sector_list_def
    by (simp only: option.case Let_def assms(1) True if_True)
next
  case False
  then have "malloc_cells g (of_nat n) = Some (replicate n None)"
    by (simp only: malloc_cells_of_nat(1) [OF assms(3)] if_False)
  then show ?thesis
    unfolding build_bad_sector_list_def
    by (simp only: option.case Let_def assms(1,2) False if_False)
qed

lemma build_spec_text:
  assumes "ts \<noteq> []" and "list_all item_ok ts" and "length (spec_sectors ts) < 2 ^ 61"
  shows "build_bad_sector_list (Some (spec_text ts)) g =
    (if unat (malloc_limit g) < 8 * length (spec_sectors ts) then Inl Allocation_refused
     else if list_all loop_ends ts
       then Inr (g\<lparr>bad_sectors := map of_nat (spec_sectors ts)\<rparr>)
       else Inl Counter_overflow)"
proof (cases "list_all loop_ends ts")
  case True
  define vs :: "64 word list" where "vs = map of_nat (spec_sectors ts)"
  have len: "length vs = length (spec_sectors ts)"
    by (simp add: vs_def)
  have n: "get_sector_count (spec_text ts) = of_nat (length vs)"
    using spec_count [OF assms(1,2)] by (simp only: len)
  have w: "add_bad_sectors (spec_text ts) 0 = Some (consecutive 0 vs)"
    using spec_stores [OF assms(1,2), of 0] True by (simp only: vs_def if_True)
  have l: "length vs < 2 ^ 61"
    using assms(3) by (simp only: len)
  show ?thesis
    using build_stores [OF n w l, of g] True by (simp only: len if_True) (simp only: vs_def)
next
  case False
  have n: "get_sector_count (spec_text ts) = of_nat (length (spec_sectors ts))"
    using assms(1,2) by (rule spec_count)
  have w: "add_bad_sectors (spec_text ts) 0 = None"
    using spec_stores [OF assms(1,2), of 0] False by (simp only: if_False)
  show ?thesis
    using build_overflow [OF n w assms(3), of g] False by (simp only: if_False)
qed

lemma set_spec_sectors:
  "set (spec_sectors ts) = (\<Union>t \<in> set ts. case t of Single n \<Rightarrow> {n} | Range n m \<Rightarrow> {n..m})"
proof -
  have "set (item_sectors t) = (case t of Single n \<Rightarrow> {n} | Range n m \<Rightarrow> {n..m})" for t
    by (cases t) (simp_all add: atLeastLessThanSuc_atLeastAtMost del: upt_Suc)
  then show ?thesis
    by (simp add: spec_sectors_def)
qed

lemma granted_length:
  assumes "8 * n \<le> unat (w :: 64 word)"
  shows "n < 2 ^ 61" and "\<not> unat w < 8 * n"
proof -
  have "unat w < 2 ^ 64"
    using unsigned_less [of w] by simp
  with assms have "8 * n < 2 ^ 64"
    by (rule le_less_trans)
  moreover have "(2 :: nat) ^ 64 = 8 * 2 ^ 61"
    by simp
  ultimately have "8 * n < 8 * 2 ^ 61"
    by (simp only:)
  then show "n < 2 ^ 61"
    by simp
  show "\<not> unat w < 8 * n"
    using assms by (simp only: not_less)
qed

lemma build_granted:
  assumes "ts \<noteq> []" and "list_all item_ok ts" and "list_all loop_ends ts"
    and "8 * length (spec_sectors ts) \<le> unat (malloc_limit g)"
  shows "build_bad_sector_list (Some (spec_text ts)) g =
    Inr (g\<lparr>bad_sectors := map of_nat (spec_sectors ts)\<rparr>)"
  using build_spec_text [OF assms(1,2) granted_length(1) [OF assms(4)], of g]
    granted_length(2) [OF assms(4)] assms(3)
  by (simp only: if_False if_True)

text \<open>
  Claim C6. For a well-formed, non-empty list (numbers that are non-negative \<open>off_t\<close>
  values and no range running backwards), when every range ends below the largest
  \<open>off_t\<close>, so that the loop over it ends, and when \<open>malloc\<close> grants the array of eight
  bytes for each sector, \<open>build_bad_sector_list\<close> stores every sector of every term, each
  range \<open>N-M\<close> expanded to \<open>N, ..., M\<close>: the sectors listed are the union of the single
  numbers and of the ranges.
\<close>

theorem well_formed_list_is_expanded:
  assumes "ts \<noteq> []" and "list_all item_ok ts" and "list_all loop_ends ts"
    and "8 * length (spec_sectors ts) \<le> unat (malloc_limit g)"
  shows "build_bad_sector_list (Some (spec_text ts)) g =
           Inr (g\<lparr>bad_sectors := map of_nat (spec_sectors ts)\<rparr>) \<and>
         set (spec_sectors ts) =
           (\<Union>t \<in> set ts. case t of Single n \<Rightarrow> {n} | Range n m \<Rightarrow> {n..m})"
  using build_granted [OF assms] set_spec_sectors by simp

text \<open>
  The lists \<open>0-4\<close> and \<open>1,3,5-7\<close>.
\<close>

theorem well_formed_list_is_expanded_witness:
  "spec_text [Range 0 4] = ''0-4'' \<and>
   build_bad_sector_list (Some ''0-4'') fresh = Inr (fresh\<lparr>bad_sectors := [0, 1, 2, 3, 4]\<rparr>) \<and>
   spec_text [Single 1, Single 3, Range 5 7] = ''1,3,5-7'' \<and>
   build_bad_sector_list (Some ''1,3,5-7'') fresh = Inr (fresh\<lparr>bad_sectors := [1, 3, 5, 6, 7]\<rparr>)"
proof -
  have t1: "spec_text [Range 0 4] = ''0-4''"
    by code_simp
  have t2: "spec_text [Single 1, Single 3, Range 5 7] = ''1,3,5-7''"
    by code_simp
  have v1: "map of_nat (spec_sectors [Range 0 4]) = [0, 1, 2, 3, 4 :: 64 word]"
    by code_simp
  have v2: "map of_nat (spec_sectors [Single 1, Single 3, Range 5 7]) = [1, 3, 5, 6, 7 :: 64 word]"
    by code_simp
  have a1: "[Range 0 4] \<noteq> []" "list_all item_ok [Range 0 4]" "list_all loop_ends [Range 0 4]"
    by simp_all
  have b1: "8 * length (spec_sectors [Range 0 4]) \<le> unat (malloc_limit fresh)"
    by (simp add: spec_sectors_def fresh_def)
  have a2: "[Single 1, Single 3, Range 5 7] \<noteq> []" "list_all item_ok [Single 1, Single 3, Range 5 7]"
    "list_all loop_ends [Single 1, Single 3, Range 5 7]"
    by simp_all
  have b2: "8 * length (spec_sectors [Single 1, Single 3, Range 5 7]) \<le> unat (malloc_limit fresh)"
    by (simp add: spec_sectors_def fresh_def)
  from well_formed_list_is_expanded [OF a1 b1]
  have "build_bad_sector_list (Some ''0-4'') fresh = Inr (fresh\<lparr>bad_sectors := [0, 1, 2, 3, 4]\<rparr>)"
    by (simp only: t1 v1)
  moreover from well_formed_list_is_expanded [OF a2 b2]
  have "build_bad_sector_list (Some ''1,3,5-7'') fresh = Inr (fresh\<lparr>bad_sectors := [1, 3, 5, 6, 7]\<rparr>)"
    by (simp only: t2 v2)
  ultimately show ?thesis
    using t1 t2 by (simp only: simp_thms)
qed

lemma build_one_store:
  assumes "get_sector_count s = 1" and "add_bad_sectors s 0 = Some [(0, v)]"
    and "8 \<le> unat (malloc_limit g)"
  shows "build_bad_sector_list (Some s) g = Inr (g\<lparr>bad_sectors := [v]\<rparr>)"
  using build_stores [of s "[v]" g] assms by simp

lemma read_scan_no_bad: "\<not> read_scan ss []"
  by (induction ss) simp_all

lemma write_scan_no_bad: "bad_sectors g = [] \<Longrightarrow> write_scan ss g = Completed g"
  by (induction ss) simp_all

text \<open>
  Claim C7, as the code has it. With no list given (\<open>sector_list\<close> is \<open>NULL\<close>: the option
  \<open>-s\<close> is absent) \<open>build_bad_sector_list\<close> does nothing, and with no sector listed no read
  or write returns \<open>EIO\<close>.
\<close>

theorem absent_list_leaves_no_bad_sector:
  "build_bad_sector_list None g = Inr g \<and>
   (bad_sectors g = [] \<longrightarrow>
      fst (read_callback path sz offset g) \<noteq> Ret_eio \<and>
      fst (write_callback path sz offset g) \<noteq> Ret_eio)"
proof -
  have frame: "bad_sectors (snd (get_disk_size g)) = bad_sectors g"
    using get_disk_size_frame [of g] by simp
  have "fst (read_callback path sz offset g) \<noteq> Ret_eio \<and>
      fst (write_callback path sz offset g) \<noteq> Ret_eio" if "bad_sectors g = []"
    using that frame
    by (cases "get_disk_size g")
      (simp add: read_callback_def write_callback_def Let_def read_scan_no_bad write_scan_no_bad)
  then show ?thesis
    by (simp add: build_bad_sector_list_def)
qed

text \<open>
  The image as \<open>init_callback\<close> finds it, without \<open>-s\<close>.
\<close>

theorem absent_list_leaves_no_bad_sector_witness:
  "build_bad_sector_list None fresh = Inr fresh \<and> bad_sectors fresh = [] \<and>
   fst (read_callback ''/disk.img'' 512 0 fresh) \<noteq> Ret_eio \<and>
   fst (write_callback ''/disk.img'' 512 0 fresh) \<noteq> Ret_eio"
proof -
  have "bad_sectors fresh = []"
    by (simp add: fresh_def)
  with absent_list_leaves_no_bad_sector [of fresh "''/disk.img''" 512 0] show ?thesis
    by simp
qed

text \<open>
  Claim C7 as the specification states it fails: for the empty string \<open>strtoul\<close> returns
  0, \<open>get_sector_count\<close> counts one sector, and sector 0 is listed, so that reading the
  first sector fails.
\<close>

theorem empty_string_lists_sector_zero:
  "build_bad_sector_list (Some []) fresh = Inr (fresh\<lparr>bad_sectors := [0]\<rparr>) \<and>
   fst (read_callback ''/disk.img'' 512 0 (fresh\<lparr>bad_sectors := [0]\<rparr>)) = Ret_eio"
proof -
  have "strtoul [] = (0, [])"
    by (simp add: strtoul_def)
  then have "get_sector_count [] = 1" "add_bad_sectors [] 0 = Some [(0, 0)]"
    by (simp_all add: get_sector_count_end add_bad_sectors_end)
  moreover have "8 \<le> unat (malloc_limit fresh)"
    by (simp add: fresh_def)
  ultimately have "build_bad_sector_list (Some []) fresh = Inr (fresh\<lparr>bad_sectors := [0]\<rparr>)"
    by (rule build_one_store)
  moreover have "fst (read_callback ''/disk.img'' 512 0 (fresh\<lparr>bad_sectors := [0]\<rparr>)) = Ret_eio"
    by code_simp
  ultimately show ?thesis
    by (simp only: simp_thms)
qed




text \<open>
  For \<open>3-\<close> the missing bound is read as 0: the count is \<open>0 - 3 + 1\<close>, which is
  \<open>2 ^ 64 - 2\<close> in \<open>size_t\<close>; the request for that many cells wraps to \<open>2 ^ 64 - 16\<close>
  bytes, \<open>malloc\<close> refuses it, and sector 3 is stored through the null pointer.
\<close>

lemma missing_bound_is_read_as_zero:
  "get_sector_count ''3-'' = - 2 \<and> add_bad_sectors ''3-'' 0 = Some [(0, 3)] \<and>
   build_bad_sector_list (Some ''3-'') fresh = Inl Allocation_refused"
proof -
  have d: "digits 3 = ''3''"
    by code_simp
  have "(3 :: nat) < 2 ^ 63"
    by simp
  then have "strtoul (digits 3 @ CHR ''-'' # []) = (of_nat 3, CHR ''-'' # [])"
    by (rule strtoul_number)
  then have a: "strtoul ''3-'' = (3, ''-'')"
    by (simp add: d)
  have b: "strtoul [] = (0, [])"
    by (simp add: strtoul_def)
  have "get_sector_count ''3-'' = 0 - 3 + 1"
    using a b by (rule get_sector_count_range_end)
  then have n: "get_sector_count ''3-'' = - 2"
    by simp
  have "range_loop 0 3 0 = Some []"
    by (simp add: range_loop_def upto.simps)
  with a b have w: "add_bad_sectors ''3-'' 0 = Some [(0, 3)]"
    by (rule add_bad_sectors_range_end)
  have "malloc_cells fresh (- 2) = None"
    by (simp add: malloc_cells_def fresh_def)
  then have "build_bad_sector_list (Some ''3-'') fresh = Inl Allocation_refused"
    by (simp add: build_bad_sector_list_def n)
  with n w show ?thesis
    by (simp only: simp_thms)
qed


section \<open>A sector listed twice\<close>

lemma count_list_map_ge: "count_list xs k \<le> count_list (map f xs) (f k)"
  by (induction xs) auto

lemma remove1_still_listed: "s \<in> set (remove1 s xs) \<longleftrightarrow> 2 \<le> count_list xs s"
proof (induction xs)
  case Nil
  then show ?case by simp
next
  case (Cons x xs)
  show ?case
  proof (cases "x = s")
    case True
    have "s \<in> set xs \<longleftrightarrow> 1 \<le> count_list xs s"
      using count_list_0_iff [of xs s] by linarith
    with True show ?thesis
      by simp
  next
    case False
    with Cons show ?thesis
      by simp
  qed
qed

lemma reserve_after_one:
  assumes "0 < (w :: 64 word)"
  shows "0 < w - 1 \<longleftrightarrow> 1 < w"
proof -
  have "Suc (unat (w - 1)) = unat w"
    using assms by (rule unat_pred)
  then have "0 < unat (w - 1) \<longleftrightarrow> 1 < unat w"
    by linarith
  then show ?thesis
    by (simp add: word_less_nat_alt)
qed

text \<open>
  Claim C10. When a well-formed list names a sector more than once, the array holds it
  more than once. With a reserve sector left, one repair of that sector succeeds and uses
  a reserve sector up, and the search still finds the sector: it is still bad. When the
  array held it twice, the next repair succeeds exactly when another reserve sector is
  left, and only after that one is the sector no longer listed.
\<close>

theorem sector_listed_twice_needs_two_repairs:
  assumes "ts \<noteq> []" and "list_all item_ok ts" and "length (spec_sectors ts) < 2 ^ 61"
    and "2 \<le> count_list (spec_sectors ts) k"
    and "build_bad_sector_list (Some (spec_text ts)) g = Inr g1"
    and "0 < reserve_sectors g"
    and "repair_bad_sector (of_nat k) g1 = (ret, g2)"
  shows "2 \<le> count_list (bad_sectors g1) (of_nat k) \<and>
         ret = 0 \<and>
         find_index (of_nat k) (bad_sectors g2) \<noteq> None \<and>
         Suc (unat (reserve_sectors g2)) = unat (reserve_sectors g) \<and>
         (count_list (bad_sectors g1) (of_nat k) = 2 \<longrightarrow>
            (fst (repair_bad_sector (of_nat k) g2) = 0 \<longleftrightarrow> 1 < reserve_sectors g) \<and>
            (1 < reserve_sectors g \<longrightarrow>
               of_nat k \<notin> set (bad_sectors (snd (repair_bad_sector (of_nat k) g2)))))"
proof -
  let ?s = "of_nat k :: 64 word"
  have g1: "g1 = g\<lparr>bad_sectors := map of_nat (spec_sectors ts)\<rparr>"
    using build_spec_text [OF assms(1-3), of g] assms(5) by (simp split: if_splits)
  have "count_list (spec_sectors ts) k \<le> count_list (bad_sectors g1) ?s"
    unfolding g1 by (simp add: count_list_map_ge)
  with assms(4) have two: "2 \<le> count_list (bad_sectors g1) ?s"
    by simp
  then have listed: "?s \<in> set (bad_sectors g1)"
    using count_list_0_iff [of "bad_sectors g1" ?s] by fastforce
  have res: "0 < reserve_sectors g1"
    using assms(6) by (simp add: g1)
  from assms(7) listed res
  have ret: "ret = 0"
    and g2: "g2 = g1\<lparr>bad_sectors := remove1 ?s (bad_sectors g1),
      reserve_sectors := reserve_sectors g1 - 1\<rparr>"
    by (simp_all add: repair_cases)
  have c2: "count_list (bad_sectors g2) ?s = count_list (bad_sectors g1) ?s - 1"
    by (simp add: g2 count_list_remove1)
  with two have still: "?s \<in> set (bad_sectors g2)"
    using count_list_0_iff [of "bad_sectors g2" ?s] by fastforce
  then have found: "find_index ?s (bad_sectors g2) \<noteq> None"
    by (simp add: find_index_None_iff)
  have r2: "reserve_sectors g2 = reserve_sectors g - 1"
    by (simp add: g2 g1)
  have used: "Suc (unat (reserve_sectors g2)) = unat (reserve_sectors g)"
    unfolding r2 using assms(6) by (rule unat_pred)
  have again: "(fst (repair_bad_sector ?s g2) = 0 \<longleftrightarrow> 1 < reserve_sectors g) \<and>
      (1 < reserve_sectors g \<longrightarrow> ?s \<notin> set (bad_sectors (snd (repair_bad_sector ?s g2))))"
    if "count_list (bad_sectors g1) ?s = 2"
  proof -
    from that c2 have one: "count_list (bad_sectors g2) ?s = 1"
      by simp
    have iff: "0 < reserve_sectors g2 \<longleftrightarrow> 1 < reserve_sectors g"
      unfolding r2 using assms(6) by (rule reserve_after_one)
    have "?s \<notin> set (remove1 ?s (bad_sectors g2))"
      using one by (simp add: remove1_still_listed)
    with still iff show ?thesis
      by (simp add: repair_cases)
  qed
  from two ret found used again show ?thesis
    by blast
qed

text \<open>
  The list \<open>7,7\<close> with two reserve sectors.
\<close>

theorem sector_listed_twice_needs_two_repairs_witness:
  "spec_text [Single 7, Single 7] = ''7,7'' \<and>
   build_bad_sector_list (Some ''7,7'') listed_twice = Inr listed_twice \<and>
   repair_bad_sector 7 listed_twice =
     (0, listed_twice\<lparr>bad_sectors := [7], reserve_sectors := 1\<rparr>) \<and>
   find_index 7 (bad_sectors (listed_twice\<lparr>bad_sectors := [7], reserve_sectors := 1\<rparr>)) \<noteq> None \<and>
   fst (repair_bad_sector 7 (listed_twice\<lparr>bad_sectors := [7], reserve_sectors := 1\<rparr>)) = 0 \<and>
   7 \<notin> set (bad_sectors (snd (repair_bad_sector 7
     (listed_twice\<lparr>bad_sectors := [7], reserve_sectors := 1\<rparr>))))"
proof -
  let ?g2 = "listed_twice\<lparr>bad_sectors := [7], reserve_sectors := 1\<rparr>"
  have t: "spec_text [Single 7, Single 7] = ''7,7''"
    by code_simp
  have a: "[Single 7, Single 7] \<noteq> []" "list_all item_ok [Single 7, Single 7]"
    by simp_all
  have b: "length (spec_sectors [Single 7, Single 7]) < 2 ^ 61"
    by (simp add: spec_sectors_def)
  have c: "2 \<le> count_list (spec_sectors [Single 7, Single 7]) 7"
    by (simp add: spec_sectors_def)
  have "8 * length (spec_sectors [Single 7, Single 7]) \<le> unat (malloc_limit listed_twice)"
    by (simp add: spec_sectors_def listed_twice_def)
  moreover have "list_all loop_ends [Single 7, Single 7]"
    by simp
  ultimately have "build_bad_sector_list (Some (spec_text [Single 7, Single 7])) listed_twice =
      Inr (listed_twice\<lparr>bad_sectors := map of_nat (spec_sectors [Single 7, Single 7])\<rparr>)"
    using a by (intro build_granted)
  then have d: "build_bad_sector_list (Some (spec_text [Single 7, Single 7])) listed_twice =
      Inr listed_twice"
    by (simp add: spec_sectors_def listed_twice_def)
  have e: "0 < reserve_sectors listed_twice"
    by (simp add: listed_twice_def)
  have f: "repair_bad_sector (of_nat 7) listed_twice = (0, ?g2)"
    by (simp add: repair_bad_sector_def listed_twice_def)
  have two: "count_list (bad_sectors listed_twice) (of_nat 7) = 2" "1 < reserve_sectors listed_twice"
    by (simp_all add: listed_twice_def)
  from sector_listed_twice_needs_two_repairs [OF a b c d e f] two
  have "find_index (of_nat 7) (bad_sectors ?g2) \<noteq> None \<and>
      fst (repair_bad_sector (of_nat 7) ?g2) = 0 \<and>
      of_nat 7 \<notin> set (bad_sectors (snd (repair_bad_sector (of_nat 7) ?g2)))"
    by blast
  with t d f show ?thesis
    by simp
qed


end
